theory Spec2Isabelle
  imports Main
begin

section \<open>The pretty printer of dvln/pretty (formatter.go)\<close>

text \<open>
  A shallow embedding of the recursive printer \<open>printValue\<close> and of the helpers it
  calls. The printer walks a \<open>reflect.Value\<close>; the model keeps of reflection what the
  code asks of it: the kind of a value, the name of its type, the kind of the element
  type, the fields of a record type, the address of an addressable record, and the
  dereferencing of pointers, slices and maps through a heap.

  The file formatter.go holds two revisions of the printer, one after the other. The
  model follows the second, which has the layout tracker (\<open>currOutputLine\<close>,
  \<open>sawCloseBracketLast\<close>, \<open>indentNeeded\<close>, \<open>newlineNeeded\<close>).

  Strings are byte strings. The predicates of the standard library on runes
  (\<open>unicode.IsLetter\<close>, \<open>unicode.IsDigit\<close>, \<open>strings.TrimSpace\<close>, \<open>strconv.Quote\<close>) are
  modelled on ASCII, where a byte is a rune. The writers of the sink (the tabwriter
  and the indent writer) belong to other packages: the model records what is written
  to them, on which level of nesting, and when they are created and flushed.
\<close>

subsection \<open>Types as reflection shows them\<close>

datatype kind =
    KInvalid | KBool | KInt | KUint | KFloat | KComplex | KString
  | KMap | KStruct | KInterface | KArray | KSlice | KPtr
  | KChan | KFunc | KUnsafePointer

text \<open>
  A field of a record type: \<open>f.Name\<close>, \<open>f.Tag.Get("pretty")\<close> and \<open>f.Type.Kind()\<close>.
\<close>

record structField =
  FName :: string
  FTag :: string
  FKind :: kind

text \<open>
  A \<open>reflect.Type\<close>: \<open>t.Kind()\<close>, \<open>t.String()\<close>, \<open>t.Elem().Kind()\<close> (maps, arrays and
  slices) and the fields \<open>t.Field(0) .. t.Field(t.NumField()-1)\<close> (records). The code
  never looks further into a type than this, so a recursive type is described as well
  as any other.
\<close>

record rtype =
  Kind :: kind
  TString :: string
  ElemKind :: kind
  Fields :: "structField list"

subsection \<open>Values and the heap\<close>

type_synonym addr = nat

text \<open>
  A \<open>reflect.Value\<close>. Floats and complex numbers are carried as the text that
  \<open>fmt\<close> prints for them under \<open>%#v\<close>. A record carries \<open>v.UnsafeAddr()\<close> when
  \<open>v.CanAddr()\<close> holds. Pointers, slices and maps are references into the heap, or nil.
\<close>

datatype val =
    VInvalid
  | VBool rtype bool
  | VInt rtype int
  | VUint rtype nat
  | VFloat rtype string
  | VComplex rtype string
  | VString rtype string
  | VMap rtype "addr option"
  | VStruct rtype "addr option" "val list"
  | VInterface rtype "val option"
  | VArray rtype "val list"
  | VSlice rtype "addr option"
  | VPtr rtype "addr option"
  | VChan rtype nat
  | VFunc rtype
  | VUnsafePointer rtype nat

datatype hobj =
    Cell val
  | Elems "val list"
  | Entries "(val \<times> val) list"

type_synonym heap = "addr \<Rightarrow> hobj option"

fun kindOf :: "val \<Rightarrow> kind" where
  "kindOf VInvalid = KInvalid"
| "kindOf (VBool t b) = KBool"
| "kindOf (VInt t i) = KInt"
| "kindOf (VUint t n) = KUint"
| "kindOf (VFloat t x) = KFloat"
| "kindOf (VComplex t x) = KComplex"
| "kindOf (VString t x) = KString"
| "kindOf (VMap t r) = KMap"
| "kindOf (VStruct t a fs) = KStruct"
| "kindOf (VInterface t e) = KInterface"
| "kindOf (VArray t xs) = KArray"
| "kindOf (VSlice t r) = KSlice"
| "kindOf (VPtr t r) = KPtr"
| "kindOf (VChan t x) = KChan"
| "kindOf (VFunc t) = KFunc"
| "kindOf (VUnsafePointer t x) = KUnsafePointer"

text \<open>
  \<open>v.Elem()\<close> of a pointer, the elements of a slice and the entries of a map (in the
  order \<open>v.MapKeys()\<close> lists the keys). A reference that the heap does not resolve
  reads as nil: reflection never hands out one.
\<close>

definition ptrElem :: "heap \<Rightarrow> addr option \<Rightarrow> val" where
  "ptrElem h r =
     (case r of None \<Rightarrow> VInvalid
      | Some a \<Rightarrow> (case h a of Some (Cell x) \<Rightarrow> x | _ \<Rightarrow> VInvalid))"

definition sliceElems :: "heap \<Rightarrow> addr option \<Rightarrow> val list option" where
  "sliceElems h r =
     (case r of None \<Rightarrow> None
      | Some a \<Rightarrow> (case h a of Some (Elems xs) \<Rightarrow> Some xs | _ \<Rightarrow> None))"

definition mapEntries :: "heap \<Rightarrow> addr option \<Rightarrow> (val \<times> val) list option" where
  "mapEntries h r =
     (case r of None \<Rightarrow> None
      | Some a \<Rightarrow> (case h a of Some (Entries es) \<Rightarrow> Some es | _ \<Rightarrow> None))"

definition interfaceElem :: "val option \<Rightarrow> val" where
  "interfaceElem e = (case e of None \<Rightarrow> VInvalid | Some x \<Rightarrow> x)"

subsection \<open>Configuration, layout tracker, sink\<close>

record config =
  humanize :: bool
  newlineAfterItems :: bool
  outputIndentLevel :: int

text \<open>
  What reaches the sink: a write on the writer of the printer at nesting level \<open>l\<close>,
  the creation by \<open>p.indent()\<close> of the writers of level \<open>l + 1\<close> (a tabwriter of the
  configured width under an indent writer), and a flush of the tabwriter of level \<open>l\<close>.
\<close>

datatype event =
    Write nat string
  | NewWriter nat int
  | Flush nat

text \<open>
  The state a render call threads: the sink, the two process-wide cells
  \<open>currOutputLine\<close> and \<open>sawCloseBracketLast\<close>, and the map \<open>visited\<close> that all
  copies of the printer share.
\<close>

record state =
  out :: "event list"
  currOutputLine :: string
  sawCloseBracketLast :: int
  visited :: "((addr \<times> rtype) \<times> int) list"

text \<open>The fields of a printer that are copied with it.\<close>

record printer =
  level :: nat
  depth :: int

definition indent :: "config \<Rightarrow> printer \<Rightarrow> state \<Rightarrow> printer \<times> state" where
  "indent cfg p s =
     (p\<lparr>level := level p + 1\<rparr>,
      s\<lparr>out := out s @ [NewWriter (level p) (outputIndentLevel cfg)]\<rparr>)"

definition flush :: "printer \<Rightarrow> state \<Rightarrow> state" where
  "flush p s = s\<lparr>out := out s @ [Flush (level p)]\<rparr>"

text \<open>A write that bypasses the tracker (\<open>fmt.Fprintf(p, ...)\<close>).\<close>

definition fprintf :: "printer \<Rightarrow> string \<Rightarrow> state \<Rightarrow> state" where
  "fprintf p str s = s\<lparr>out := out s @ [Write (level p) str]\<rparr>"

subsection \<open>Strings\<close>

definition nl :: char where "nl = CHR 0x0A"
definition tab :: char where "tab = CHR 0x09"
definition dquote :: char where "dquote = CHR 0x22"
definition backslash :: char where "backslash = CHR 0x5C"

text \<open>\<open>strings.Split(s, sep)\<close> for a separator of one byte: never empty.\<close>

fun split :: "char \<Rightarrow> string \<Rightarrow> string list" where
  "split c [] = [[]]"
| "split c (x # xs) =
     (if x = c then [] # split c xs
      else (case split c xs of [] \<Rightarrow> [[x]] | l # ls \<Rightarrow> (x # l) # ls))"

definition lastLine :: "string \<Rightarrow> string" where
  "lastLine s = last (split nl s)"

definition isSpace :: "char \<Rightarrow> bool" where
  "isSpace c = (c = CHR '' '' \<or> c = CHR 0x09 \<or> c = CHR 0x0A \<or> c = CHR 0x0B
                \<or> c = CHR 0x0C \<or> c = CHR 0x0D)"

definition TrimSpace :: "string \<Rightarrow> string" where
  "TrimSpace s = rev (dropWhile isSpace (rev (dropWhile isSpace s)))"

definition hexDigit :: "nat \<Rightarrow> char" where
  "hexDigit d = ''0123456789abcdef'' ! (d mod 16)"

fun decimal :: "nat \<Rightarrow> string" where
  "decimal n = (if n < 10 then [hexDigit n] else decimal (n div 10) @ [hexDigit (n mod 10)])"

declare decimal.simps [simp del]

fun hex :: "nat \<Rightarrow> string" where
  "hex n = (if n < 16 then [hexDigit n] else hex (n div 16) @ [hexDigit (n mod 16)])"

declare hex.simps [simp del]

text \<open>\<open>fmt.Sprintf("%#v", x)\<close> for a bool, a signed and an unsigned integer.\<close>

definition sprintBool :: "bool \<Rightarrow> string" where
  "sprintBool b = (if b then ''true'' else ''false'')"

definition sprintInt :: "int \<Rightarrow> string" where
  "sprintInt i = (if i < 0 then CHR ''-'' # decimal (nat (- i)) else decimal (nat i))"

definition sprintUint :: "nat \<Rightarrow> string" where
  "sprintUint n = ''0x'' @ hex n"

text \<open>
  \<open>strconv.Quote\<close>: the quote and the backslash are escaped, control characters are
  written as escapes, every other byte is kept.
\<close>

definition quoteChar :: "char \<Rightarrow> string" where
  "quoteChar c =
     (if c = dquote then [backslash, dquote]
      else if c = backslash then [backslash, backslash]
      else if c = CHR 0x07 then [backslash, CHR ''a'']
      else if c = CHR 0x08 then [backslash, CHR ''b'']
      else if c = CHR 0x0C then [backslash, CHR ''f'']
      else if c = CHR 0x0A then [backslash, CHR ''n'']
      else if c = CHR 0x0D then [backslash, CHR ''r'']
      else if c = CHR 0x09 then [backslash, CHR ''t'']
      else if c = CHR 0x0B then [backslash, CHR ''v'']
      else if of_char c < (32::nat) \<or> c = CHR 0x7F
        then [backslash, CHR ''x'', hexDigit (of_char c div 16), hexDigit (of_char c mod 16)]
      else [c])"

definition Quote :: "string \<Rightarrow> string" where
  "Quote s = dquote # concat (map quoteChar s) @ [dquote]"

subsection \<open>Writes through the layout tracker\<close>

definition writeByte :: "config \<Rightarrow> printer \<Rightarrow> char \<Rightarrow> state \<Rightarrow> state" where
  "writeByte cfg p b s =
     (if humanize cfg \<and> (b = CHR ''{'' \<or> b = CHR ''}'') then
        (if b = CHR ''}'' then s\<lparr>sawCloseBracketLast := sawCloseBracketLast s + 1\<rparr> else s)
      else
        (let s1 = (if humanize cfg then
                     (if b = nl then s\<lparr>currOutputLine := []\<rparr>
                      else s\<lparr>currOutputLine := currOutputLine s @ [b]\<rparr>)
                   else s)
         in s1\<lparr>sawCloseBracketLast := 0, out := out s1 @ [Write (level p) [b]]\<rparr>))"

definition writeString :: "config \<Rightarrow> printer \<Rightarrow> string \<Rightarrow> state \<Rightarrow> state" where
  "writeString cfg p str s =
     (let s1 = (if humanize cfg then
                  (let s0 = (if str \<noteq> [] then s\<lparr>sawCloseBracketLast := 0\<rparr> else s)
                   in s0\<lparr>currOutputLine := lastLine str\<rparr>)
                else s)
      in s1\<lparr>out := out s1 @ [Write (level p) str]\<rparr>)"

definition indentNeeded :: "config \<Rightarrow> state \<Rightarrow> bool" where
  "indentNeeded cfg s =
     (if \<not> humanize cfg then True
      else if CHR '':'' \<in> set (currOutputLine s) then True
      else False)"

definition newlineNeeded :: "config \<Rightarrow> state \<Rightarrow> bool" where
  "newlineNeeded cfg s =
     (if sawCloseBracketLast s = 0 \<or> (newlineAfterItems cfg \<and> sawCloseBracketLast s = 2)
      then True else False)"

definition printInline :: "config \<Rightarrow> printer \<Rightarrow> rtype \<Rightarrow> string \<Rightarrow> bool \<Rightarrow> state \<Rightarrow> state" where
  "printInline cfg p t result showType s =
     (if showType \<and> \<not> humanize cfg then
        fprintf p (''('' @ result @ '')'') (writeString cfg p (TString t) s)
      else
        (let s1 = (if humanize cfg \<and> result \<noteq> [] \<and> TrimSpace result = []
                   then fprintf p ([dquote] @ result @ [dquote]) s
                   else fprintf p result s)
         in if humanize cfg then s1\<lparr>currOutputLine := lastLine result\<rparr> else s1))"

definition fmtString :: "config \<Rightarrow> printer \<Rightarrow> string \<Rightarrow> bool \<Rightarrow> state \<Rightarrow> state" where
  "fmtString cfg p str quote s =
     writeString cfg p
       (if quote \<or> (humanize cfg \<and> str \<noteq> [] \<and> TrimSpace str = []) then Quote str else str) s"

subsection \<open>Field tags\<close>

definition parseTag :: "string \<Rightarrow> string \<times> string" where
  "parseTag tag =
     (if CHR '','' \<in> set tag
      then (takeWhile (\<lambda>c. c \<noteq> CHR '','') tag, drop 1 (dropWhile (\<lambda>c. c \<noteq> CHR '','') tag))
      else (tag, []))"

text \<open>
  The loop of \<open>tagOptions.Contains\<close>: \<open>s\<close> is what is left of the options, its head
  segment is compared and the rest follows the first comma.
\<close>

function containsLoop :: "string \<Rightarrow> string \<Rightarrow> bool" where
  "containsLoop s optionName =
     (if s = [] then False
      else if takeWhile (\<lambda>c. c \<noteq> CHR '','') s = optionName then True
      else containsLoop (drop 1 (dropWhile (\<lambda>c. c \<noteq> CHR '','') s)) optionName)"
  by pat_completeness auto
termination
proof (relation "measure (\<lambda>(s, n). length s)")
  show "wf (measure (\<lambda>(s, n). length s))" by simp
next
  fix s optionName :: string
  assume "s \<noteq> []"
  then have "length (drop 1 (dropWhile (\<lambda>c. c \<noteq> CHR '','') s)) < length s"
    using length_dropWhile_le [of "\<lambda>c. c \<noteq> CHR '',''" s] by (cases s) auto
  then show "((drop 1 (dropWhile (\<lambda>c. c \<noteq> CHR '','') s), optionName), (s, optionName))
             \<in> measure (\<lambda>(s, n). length s)"
    by simp
qed

declare containsLoop.simps [simp del]

definition Contains :: "string \<Rightarrow> string \<Rightarrow> bool" where
  "Contains opts optionName = (if length opts = 0 then False else containsLoop opts optionName)"

definition IsLetter :: "char \<Rightarrow> bool" where
  "IsLetter c =
     (let n = (of_char c :: nat) in (97 \<le> n \<and> n \<le> 122) \<or> (65 \<le> n \<and> n \<le> 90))"

definition IsDigit :: "char \<Rightarrow> bool" where
  "IsDigit c = (let n = (of_char c :: nat) in 48 \<le> n \<and> n \<le> 57)"

definition tagPunctuation :: string where
  "tagPunctuation = ''!#$%&()*+-./:<=>?@[]^_{|}~ ''"

fun validTagChars :: "string \<Rightarrow> bool" where
  "validTagChars [] = True"
| "validTagChars (c # cs) =
     (if c \<in> set tagPunctuation then validTagChars cs
      else if \<not> IsLetter c \<and> \<not> IsDigit c then False
      else validTagChars cs)"

definition isValidTag :: "string \<Rightarrow> bool" where
  "isValidTag s = (if s = [] then False else validTagChars s)"

subsection \<open>Empty values, fields, inlining\<close>

definition valLen :: "heap \<Rightarrow> val \<Rightarrow> nat" where
  "valLen h v =
     (case v of
        VArray t xs \<Rightarrow> length xs
      | VString t x \<Rightarrow> length x
      | VSlice t r \<Rightarrow> (case sliceElems h r of None \<Rightarrow> 0 | Some xs \<Rightarrow> length xs)
      | VMap t r \<Rightarrow> (case mapEntries h r of None \<Rightarrow> 0 | Some es \<Rightarrow> length es)
      | _ \<Rightarrow> 0)"

definition IsNil :: "val \<Rightarrow> bool" where
  "IsNil v =
     (case v of
        VInterface t e \<Rightarrow> e = None
      | VPtr t r \<Rightarrow> r = None
      | VSlice t r \<Rightarrow> r = None
      | VMap t r \<Rightarrow> r = None
      | _ \<Rightarrow> False)"

definition isEmptyValue :: "heap \<Rightarrow> val \<Rightarrow> bool" where
  "isEmptyValue h v =
     (if kindOf v = KArray \<or> kindOf v = KMap \<or> kindOf v = KSlice \<or> kindOf v = KString
        then valLen h v = 0
      else if kindOf v = KInterface \<or> kindOf v = KPtr then IsNil v
      else False)"

text \<open>\<open>getField(v, i)\<close>, given \<open>v.Field(i)\<close>.\<close>

definition getField :: "val \<Rightarrow> val" where
  "getField fv =
     (if kindOf fv = KInterface \<and> \<not> IsNil fv
      then (case fv of VInterface t e \<Rightarrow> interfaceElem e | _ \<Rightarrow> fv)
      else fv)"

definition canExpand :: "kind \<Rightarrow> bool" where
  "canExpand k =
     (case k of
        KMap \<Rightarrow> True | KStruct \<Rightarrow> True | KInterface \<Rightarrow> True
      | KArray \<Rightarrow> True | KSlice \<Rightarrow> True | KPtr \<Rightarrow> True
      | _ \<Rightarrow> False)"

definition labelType :: "kind \<Rightarrow> bool" where
  "labelType k = (case k of KInterface \<Rightarrow> True | KStruct \<Rightarrow> True | _ \<Rightarrow> False)"

fun inlineFields :: "structField list \<Rightarrow> bool" where
  "inlineFields [] = True"
| "inlineFields (f # fs) = (if canExpand (FKind f) then False else inlineFields fs)"

definition canInline :: "config \<Rightarrow> rtype \<Rightarrow> bool" where
  "canInline cfg t =
     (if humanize cfg then False
      else (case Kind t of
              KMap \<Rightarrow> \<not> canExpand (ElemKind t)
            | KStruct \<Rightarrow> inlineFields (Fields t)
            | KInterface \<Rightarrow> False
            | KArray \<Rightarrow> \<not> canExpand (ElemKind t)
            | KSlice \<Rightarrow> \<not> canExpand (ElemKind t)
            | KPtr \<Rightarrow> False
            | KChan \<Rightarrow> False
            | KFunc \<Rightarrow> False
            | KUnsafePointer \<Rightarrow> False
            | _ \<Rightarrow> True))"

subsection \<open>The loops of printValue\<close>

text \<open>
  The recursive call \<open>pp.printValue(x, showType, quote)\<close>, as the loops receive it. It
  returns no state when the recursion does not come back.
\<close>

type_synonym pv = "printer \<Rightarrow> val \<Rightarrow> bool \<Rightarrow> bool \<Rightarrow> state \<Rightarrow> state option"

text \<open>
  The loop over \<open>v.MapKeys()\<close>. The list holds the entries from index \<open>i\<close> on, so
  \<open>i < v.Len()-1\<close> says that more than one entry is left.
\<close>

fun mapLoop :: "pv \<Rightarrow> config \<Rightarrow> rtype \<Rightarrow> printer \<Rightarrow> bool \<Rightarrow> (val \<times> val) list \<Rightarrow> state \<Rightarrow> state option" where
  "mapLoop pv cfg t pp expand [] s = Some s"
| "mapLoop pv cfg t pp expand ((k, mv) # rest) s =
     (case pv pp k False True s of
        None \<Rightarrow> None
      | Some s1 \<Rightarrow>
          (let s2 = writeByte cfg pp CHR '':'' s1;
               s3 = (if expand then writeByte cfg pp tab s2 else s2);
               showTypeInStruct = (if humanize cfg then False else ElemKind t = KInterface)
           in case pv pp mv showTypeInStruct True s3 of
                None \<Rightarrow> None
              | Some s4 \<Rightarrow>
                  mapLoop pv cfg t pp expand rest
                    (if expand then
                       (if humanize cfg then
                          (if newlineNeeded cfg s4 then writeString cfg pp [nl] s4 else s4)
                        else writeString cfg pp ('','' @ [nl]) s4)
                     else if rest \<noteq> [] then writeString cfg pp '', '' s4
                     else s4)))"

text \<open>
  One field of a record, after its name has been written or the field has been found
  to have none: the value and the separator.
\<close>

definition fieldValue :: "pv \<Rightarrow> config \<Rightarrow> printer \<Rightarrow> bool \<Rightarrow> val \<Rightarrow> bool \<Rightarrow> bool \<Rightarrow> state \<Rightarrow> state option" where
  "fieldValue pv cfg pp expand fv showTypeInStruct notLast s =
     (case pv pp (getField fv) showTypeInStruct True s of
        None \<Rightarrow> None
      | Some s1 \<Rightarrow>
          Some (if humanize cfg then
                  (if newlineNeeded cfg s1 then writeByte cfg pp nl s1 else s1)
                else if expand then writeString cfg pp ('','' @ [nl]) s1
                else if notLast then writeString cfg pp '', '' s1
                else s1))"

definition fieldName :: "config \<Rightarrow> printer \<Rightarrow> bool \<Rightarrow> string \<Rightarrow> state \<Rightarrow> state" where
  "fieldName cfg pp expand name s =
     (let s1 = writeByte cfg pp CHR '':'' (writeString cfg pp name s)
      in if expand then writeByte cfg pp tab s1 else s1)"

text \<open>
  The loop over the fields of a record; the list pairs \<open>t.Field(i)\<close> with \<open>v.Field(i)\<close>
  from index \<open>i\<close> on. A \<open>continue\<close> goes on with the rest of the list.
\<close>

fun structLoop :: "pv \<Rightarrow> config \<Rightarrow> heap \<Rightarrow> printer \<Rightarrow> bool \<Rightarrow> (structField \<times> val) list \<Rightarrow> state \<Rightarrow> state option" where
  "structLoop pv cfg h pp expand [] s = Some s"
| "structLoop pv cfg h pp expand ((f, fv) # rest) s =
     (if FName f \<noteq> [] then
        (if humanize cfg then
           (if FTag f = ''-'' then structLoop pv cfg h pp expand rest s
            else
              (let (newName, opts) = parseTag (FTag f);
                   name = (if isValidTag newName then newName else FName f);
                   omitEmpty = Contains opts ''omitempty''
               in if omitEmpty \<and> isEmptyValue h (getField fv)
                  then structLoop pv cfg h pp expand rest s
                  else (case fieldValue pv cfg pp expand fv False (rest \<noteq> [])
                               (fieldName cfg pp expand name s) of
                          None \<Rightarrow> None
                        | Some s1 \<Rightarrow> structLoop pv cfg h pp expand rest s1)))
         else
           (case fieldValue pv cfg pp expand fv (labelType (FKind f)) (rest \<noteq> [])
                   (fieldName cfg pp expand (FName f) s) of
              None \<Rightarrow> None
            | Some s1 \<Rightarrow> structLoop pv cfg h pp expand rest s1))
      else
        (case fieldValue pv cfg pp expand fv (\<not> humanize cfg) (rest \<noteq> []) s of
           None \<Rightarrow> None
         | Some s1 \<Rightarrow> structLoop pv cfg h pp expand rest s1))"

text \<open>The loop over the elements of an array or a slice.\<close>

fun seqLoop :: "pv \<Rightarrow> config \<Rightarrow> rtype \<Rightarrow> printer \<Rightarrow> bool \<Rightarrow> val list \<Rightarrow> state \<Rightarrow> state option" where
  "seqLoop pv cfg t pp expand [] s = Some s"
| "seqLoop pv cfg t pp expand (x # rest) s =
     (case pv pp x (ElemKind t = KInterface) True s of
        None \<Rightarrow> None
      | Some s1 \<Rightarrow>
          seqLoop pv cfg t pp expand rest
            (if humanize cfg then
               (if newlineNeeded cfg s1 then writeByte cfg pp nl s1 else s1)
             else if expand then writeString cfg pp ('','' @ [nl]) s1
             else if rest \<noteq> [] then writeString cfg pp '', '' s1
             else s1))"

subsection \<open>The cases of printValue\<close>

text \<open>
  The opening of a composite: \<open>pp := p\<close>, and when the value expands and an indent is
  needed, a newline on \<open>p\<close> and \<open>pp = p.indent()\<close>.
\<close>

definition openScope :: "config \<Rightarrow> printer \<Rightarrow> bool \<Rightarrow> state \<Rightarrow> printer \<times> state" where
  "openScope cfg p expand s =
     (if expand \<and> indentNeeded cfg s then indent cfg p (writeByte cfg p nl s) else (p, s))"

definition printMap :: "pv \<Rightarrow> bool \<Rightarrow> config \<Rightarrow> heap \<Rightarrow> printer \<Rightarrow> rtype \<Rightarrow> addr option \<Rightarrow> bool \<Rightarrow> state \<Rightarrow> state option" where
  "printMap pv nonzero cfg h p t r showType s =
     (let s1 = (if showType then (if \<not> humanize cfg then writeString cfg p (TString t) s else s) else s);
          s2 = writeByte cfg p CHR ''{'' s1
      in if nonzero \<or> humanize cfg then
           (let expand = \<not> canInline cfg t;
                (pp, s3) = openScope cfg p expand s2
            in case mapLoop pv cfg t pp expand
                      (case mapEntries h r of None \<Rightarrow> [] | Some es \<Rightarrow> es) s3 of
                 None \<Rightarrow> None
               | Some s4 \<Rightarrow> Some (writeByte cfg p CHR ''}'' (if expand then flush pp s4 else s4)))
         else Some (writeByte cfg p CHR ''}'' s2))"

text \<open>
  The guard of the record case: the record has an address, the pair of the address and
  the type is in \<open>visited\<close>, and the depth recorded there is below the current depth.
\<close>

definition cyclic :: "printer \<Rightarrow> rtype \<Rightarrow> addr option \<Rightarrow> state \<Rightarrow> bool" where
  "cyclic p t a s =
     (case a of
        None \<Rightarrow> False
      | Some ad \<Rightarrow> (case map_of (visited s) (ad, t) of None \<Rightarrow> False | Some vd \<Rightarrow> vd < depth p))"

definition visit :: "printer \<Rightarrow> rtype \<Rightarrow> addr option \<Rightarrow> state \<Rightarrow> state" where
  "visit p t a s =
     (case a of None \<Rightarrow> s | Some ad \<Rightarrow> s\<lparr>visited := ((ad, t), depth p) # visited s\<rparr>)"

definition printStruct :: "pv \<Rightarrow> bool \<Rightarrow> config \<Rightarrow> heap \<Rightarrow> printer \<Rightarrow> rtype \<Rightarrow> addr option \<Rightarrow> val list \<Rightarrow> bool \<Rightarrow> state \<Rightarrow> state option" where
  "printStruct pv nonzero cfg h p t a fs showType s =
     (if cyclic p t a s then Some (fmtString cfg p (TString t @ ''{(CYCLIC REFERENCE)}'') False s)
      else
        (let s0 = visit p t a s;
             s1 = (if showType then (if \<not> humanize cfg then writeString cfg p (TString t) s0 else s0) else s0);
             s2 = writeByte cfg p CHR ''{'' s1
         in if nonzero \<or> humanize cfg then
              (let expand = \<not> canInline cfg t;
                   (pp, s3) = openScope cfg p expand s2
               in case structLoop pv cfg h pp expand (zip (Fields t) fs) s3 of
                    None \<Rightarrow> None
                  | Some s4 \<Rightarrow> Some (writeByte cfg p CHR ''}'' (if expand then flush pp s4 else s4)))
            else Some (writeByte cfg p CHR ''}'' s2)))"

definition printInterface :: "pv \<Rightarrow> config \<Rightarrow> printer \<Rightarrow> rtype \<Rightarrow> val option \<Rightarrow> bool \<Rightarrow> state \<Rightarrow> state option" where
  "printInterface pv cfg p t e showType s =
     (if kindOf (interfaceElem e) = KInvalid then Some (writeString cfg p ''nil'' s)
      else if kindOf (interfaceElem e) \<noteq> KInvalid
        then pv (p\<lparr>depth := depth p + 1\<rparr>) (interfaceElem e) showType True s
      else Some (writeString cfg p ''(nil)'' (writeString cfg p (TString t) s)))"

text \<open>
  The array and slice case; \<open>xs\<close> is \<open>None\<close> for a nil slice.
\<close>

definition printSeq :: "pv \<Rightarrow> config \<Rightarrow> printer \<Rightarrow> rtype \<Rightarrow> val list option \<Rightarrow> bool \<Rightarrow> state \<Rightarrow> state option" where
  "printSeq pv cfg p t xs showType s =
     (let s1 = (if showType then writeString cfg p (TString t) s else s)
      in case xs of
           None \<Rightarrow> (if showType then Some (writeString cfg p ''(nil)'' s1)
                    else Some (writeString cfg p ''nil'' s1))
         | Some els \<Rightarrow>
             (let s2 = writeByte cfg p CHR ''{'' s1;
                  expand = \<not> canInline cfg t;
                  (pp, s3) = openScope cfg p expand s2
              in case seqLoop pv cfg t pp expand els s3 of
                   None \<Rightarrow> None
                 | Some s4 \<Rightarrow> Some (writeByte cfg p CHR ''}'' (if expand then flush pp s4 else s4))))"

definition printPtr :: "pv \<Rightarrow> config \<Rightarrow> heap \<Rightarrow> printer \<Rightarrow> rtype \<Rightarrow> addr option \<Rightarrow> state \<Rightarrow> state option" where
  "printPtr pv cfg h p t r s =
     (if kindOf (ptrElem h r) = KInvalid then
        (if humanize cfg then Some (writeString cfg p ''nil'' s)
         else Some (writeString cfg p '')(nil)''
                     (writeString cfg p (TString t) (writeByte cfg p CHR ''('' s))))
      else
        (let pp = p\<lparr>depth := depth p + 1\<rparr>;
             s1 = (if \<not> humanize cfg then writeByte cfg pp CHR ''&'' s else s)
         in pv pp (ptrElem h r) True True s1))"

definition printChan :: "config \<Rightarrow> printer \<Rightarrow> rtype \<Rightarrow> nat \<Rightarrow> bool \<Rightarrow> state \<Rightarrow> state" where
  "printChan cfg p t x showType s =
     (if showType then
        fprintf p ('')('' @ sprintUint x @ '')'')
          (writeString cfg p (TString t) (writeByte cfg p CHR ''('' s))
      else fprintf p (sprintUint x) s)"

subsection \<open>printValue\<close>

text \<open>
  The switch on \<open>v.Kind()\<close>, with the recursive call as \<open>pv\<close>. The function
  \<open>nonzero\<close> of the repository is not among the sources here: it is a parameter.
  \<open>printValue n\<close> is \<open>printValue\<close> with at most \<open>n\<close> nested activations: a call that
  would need more returns \<open>None\<close>.
\<close>

definition printKind :: "pv \<Rightarrow> (val \<Rightarrow> bool) \<Rightarrow> config \<Rightarrow> heap \<Rightarrow> pv" where
  "printKind pv nonzero cfg h p v showType quote s =
     (case v of
        VBool t b \<Rightarrow> Some (printInline cfg p t (sprintBool b) showType s)
      | VInt t i \<Rightarrow> Some (printInline cfg p t (sprintInt i) showType s)
      | VUint t u \<Rightarrow> Some (printInline cfg p t (sprintUint u) showType s)
      | VFloat t x \<Rightarrow> Some (printInline cfg p t x showType s)
      | VComplex t x \<Rightarrow> Some (fprintf p x s)
      | VString t x \<Rightarrow> Some (fmtString cfg p x quote s)
      | VMap t r \<Rightarrow> printMap pv (nonzero v) cfg h p t r showType s
      | VStruct t a fs \<Rightarrow> printStruct pv (nonzero v) cfg h p t a fs showType s
      | VInterface t e \<Rightarrow> printInterface pv cfg p t e showType s
      | VArray t xs \<Rightarrow> printSeq pv cfg p t (Some xs) showType s
      | VSlice t r \<Rightarrow> printSeq pv cfg p t (sliceElems h r) showType s
      | VPtr t r \<Rightarrow> printPtr pv cfg h p t r s
      | VChan t x \<Rightarrow> Some (printChan cfg p t x showType s)
      | VFunc t \<Rightarrow> Some (writeString cfg p '' {...}'' (writeString cfg p (TString t) s))
      | VUnsafePointer t x \<Rightarrow> Some (printInline cfg p t (sprintUint x) showType s)
      | VInvalid \<Rightarrow> Some (writeString cfg p ''nil'' s))"

primrec printValue :: "nat \<Rightarrow> (val \<Rightarrow> bool) \<Rightarrow> config \<Rightarrow> heap \<Rightarrow> pv" where
  "printValue 0 nonzero cfg h p v showType quote s = None"
| "printValue (Suc n) nonzero cfg h p v showType quote s =
     (if depth p > 10 then Some (writeString cfg p ''!%v(DEPTH EXCEEDED)'' s)
      else
        (let quote = (if humanize cfg then False else quote);
             showType = (if humanize cfg then False else showType)
         in printKind (printValue n nonzero cfg h) nonzero cfg h p v showType quote s))"

text \<open>
  The printing branch of \<open>formatter.Format\<close>: a fresh printer at depth 0 with an empty
  \<open>visited\<close>, \<open>showType\<close> set, the formatter's \<open>quote\<close>, and a final flush. The two
  cells of the layout tracker are what the previous call left.
\<close>

definition Format :: "nat \<Rightarrow> (val \<Rightarrow> bool) \<Rightarrow> config \<Rightarrow> heap \<Rightarrow> val \<Rightarrow> bool \<Rightarrow> state \<Rightarrow> state option" where
  "Format n nonzero cfg h x quote s =
     (let p = \<lparr>level = 0, depth = 0\<rparr>
      in case printValue n nonzero cfg h p x True quote (s\<lparr>visited := []\<rparr>) of
           None \<Rightarrow> None
         | Some s1 \<Rightarrow> Some (flush p s1))"

text \<open>The state of a process that has not printed yet, and the bytes written so far.\<close>

definition initial :: state where
  "initial = \<lparr>out = [], currOutputLine = [], sawCloseBracketLast = 0, visited = []\<rparr>"

fun written :: "event list \<Rightarrow> string" where
  "written [] = []"
| "written (Write l str # es) = str @ written es"
| "written (e # es) = written es"

text \<open>
  \<open>printValue\<close> without the test of the depth: what the printer does as long as the
  cap is not reached.
\<close>

primrec printValueNoCap :: "nat \<Rightarrow> (val \<Rightarrow> bool) \<Rightarrow> config \<Rightarrow> heap \<Rightarrow> pv" where
  "printValueNoCap 0 nonzero cfg h p v showType quote s = None"
| "printValueNoCap (Suc n) nonzero cfg h p v showType quote s =
     (let quote = (if humanize cfg then False else quote);
          showType = (if humanize cfg then False else showType)
      in printKind (printValueNoCap n nonzero cfg h) nonzero cfg h p v showType quote s)"

subsection \<open>More activations\<close>

text \<open>
  A result, once returned, is the result with any larger bound on the activations:
  \<open>ole a b\<close> says that \<open>b\<close> is \<open>a\<close> when \<open>a\<close> has returned.
\<close>

definition ole :: "state option \<Rightarrow> state option \<Rightarrow> bool" where
  "ole a b = (\<forall>r. a = Some r \<longrightarrow> b = Some r)"

definition extends :: "pv \<Rightarrow> pv \<Rightarrow> bool" where
  "extends pv1 pv2 = (\<forall>p v st q s. ole (pv1 p v st q s) (pv2 p v st q s))"

subsection \<open>Reachable values\<close>

text \<open>
  The values of the graph of \<open>v\<close>: the fields of a record, the elements of an array or
  a slice, the keys and values of a map, the value held by an interface and the
  referent of a pointer.
\<close>

inductive_set reach :: "heap \<Rightarrow> val \<Rightarrow> val set" for h :: heap and v :: val where
  self: "v \<in> reach h v"
| field: "VStruct t a fs \<in> reach h v \<Longrightarrow> x \<in> set fs \<Longrightarrow> x \<in> reach h v"
| index: "VArray t xs \<in> reach h v \<Longrightarrow> x \<in> set xs \<Longrightarrow> x \<in> reach h v"
| sliceIndex: "VSlice t r \<in> reach h v \<Longrightarrow> sliceElems h r = Some xs \<Longrightarrow> x \<in> set xs \<Longrightarrow> x \<in> reach h v"
| mapKey: "VMap t r \<in> reach h v \<Longrightarrow> mapEntries h r = Some es \<Longrightarrow> (k, x) \<in> set es \<Longrightarrow> k \<in> reach h v"
| mapIndex: "VMap t r \<in> reach h v \<Longrightarrow> mapEntries h r = Some es \<Longrightarrow> (k, x) \<in> set es \<Longrightarrow> x \<in> reach h v"
| interface: "VInterface t (Some x) \<in> reach h v \<Longrightarrow> x \<in> reach h v"
| pointer: "VPtr t (Some a) \<in> reach h v \<Longrightarrow> h a = Some (Cell x) \<Longrightarrow> x \<in> reach h v"

text \<open>
  The values handed to the recursive call by the record, map, array and slice cases.
\<close>

definition children :: "heap \<Rightarrow> val \<Rightarrow> val set" where
  "children h v =
     (case v of
        VStruct t a fs \<Rightarrow> getField ` set fs
      | VArray t xs \<Rightarrow> set xs
      | VSlice t r \<Rightarrow> (case sliceElems h r of None \<Rightarrow> {} | Some xs \<Rightarrow> set xs)
      | VMap t r \<Rightarrow> (case mapEntries h r of None \<Rightarrow> {}
                     | Some es \<Rightarrow> fst ` set es \<union> snd ` set es)
      | _ \<Rightarrow> {})"

text \<open>The number of writes of the text \<open>str\<close>.\<close>

definition writes :: "string \<Rightarrow> event list \<Rightarrow> nat" where
  "writes str es = length (filter (\<lambda>e. case e of Write l x \<Rightarrow> x = str | _ \<Rightarrow> False) es)"

subsection \<open>Relating two renders\<close>

text \<open>
  Two states that differ at most in the cells of the layout tracker, and a printer
  that takes such states to such states.
\<close>

definition sim :: "state \<Rightarrow> state \<Rightarrow> bool" where
  "sim s s' = (out s = out s' \<and> visited s = visited s')"

definition keeps_sim :: "pv \<Rightarrow> bool" where
  "keeps_sim pv = (\<forall>p v st q s s'. sim s s' \<longrightarrow> rel_option sim (pv p v st q s) (pv p v st q s'))"






subsection \<open>The inlining policy in the words of the specification\<close>

definition spec_expandable :: "kind \<Rightarrow> bool" where
  "spec_expandable k =
     (k = KMap \<or> k = KStruct \<or> k = KInterface \<or> k = KArray \<or> k = KSlice \<or> k = KPtr)"

definition spec_inlinable :: "rtype \<Rightarrow> bool" where
  "spec_inlinable t =
     (if Kind t = KStruct then list_all (\<lambda>f. \<not> spec_expandable (FKind f)) (Fields t)
      else if Kind t = KMap \<or> Kind t = KArray \<or> Kind t = KSlice
        then \<not> spec_expandable (ElemKind t)
      else False)"

subsection \<open>The rendering of a field that points back to its record\<close>


subsection \<open>Example inputs\<close>

definition structured :: config where
  "structured = \<lparr>humanize = False, newlineAfterItems = False, outputIndentLevel = 4\<rparr>"

definition humanized :: config where
  "humanized = \<lparr>humanize = True, newlineAfterItems = False, outputIndentLevel = 4\<rparr>"

definition noHeap :: heap where
  "noHeap = (\<lambda>a. None)"

definition top :: printer where
  "top = \<lparr>level = 0, depth = 0\<rparr>"

definition tInt :: rtype where
  "tInt = \<lparr>Kind = KInt, TString = ''int'', ElemKind = KInvalid, Fields = []\<rparr>"

definition tString :: rtype where
  "tString = \<lparr>Kind = KString, TString = ''string'', ElemKind = KInvalid, Fields = []\<rparr>"

text \<open>\<open>type Point struct { X, Y int }\<close>\<close>

definition tPoint :: rtype where
  "tPoint = \<lparr>Kind = KStruct, TString = ''main.Point'', ElemKind = KInvalid,
     Fields = [\<lparr>FName = ''X'', FTag = [], FKind = KInt\<rparr>,
               \<lparr>FName = ''Y'', FTag = [], FKind = KInt\<rparr>]\<rparr>"

text \<open>\<open>type Note struct { Text string `pretty:",omitempty"` }\<close>\<close>

definition fText :: structField where
  "fText = \<lparr>FName = ''Text'', FTag = '',omitempty'', FKind = KString\<rparr>"

definition tNote :: rtype where
  "tNote = \<lparr>Kind = KStruct, TString = ''main.Note'', ElemKind = KInvalid, Fields = [fText]\<rparr>"

text \<open>\<open>Key string `pretty:"-,omitempty"`\<close> and \<open>Plain string\<close>\<close>

definition fKey :: structField where
  "fKey = \<lparr>FName = ''Key'', FTag = ''-,omitempty'', FKind = KString\<rparr>"

definition fPlain :: structField where
  "fPlain = \<lparr>FName = ''Plain'', FTag = [], FKind = KString\<rparr>"

text \<open>
  \<open>type L0 struct { In int }\<close>, \<open>type L1 struct { In L0 }\<close>, ...: \<open>nest k\<close> is a value
  of \<open>L\<close>\<open>k\<close>, \<open>k + 1\<close> records nested by value around the integer 7.
\<close>

definition tLevel :: "nat \<Rightarrow> rtype" where
  "tLevel k = \<lparr>Kind = KStruct, TString = ''main.L'' @ decimal k, ElemKind = KInvalid,
     Fields = [\<lparr>FName = ''In'', FTag = [], FKind = (if k = 0 then KInt else KStruct)\<rparr>]\<rparr>"

fun nest :: "nat \<Rightarrow> val" where
  "nest 0 = VStruct (tLevel 0) None [VInt tInt 7]"
| "nest (Suc k) = VStruct (tLevel (Suc k)) None [nest k]"

text \<open>
  \<open>type Node struct { Next *Node }\<close>: twelve nodes at the addresses 1 to 12, each
  pointing to the next, the last to nil.
\<close>

definition tNode :: rtype where
  "tNode = \<lparr>Kind = KStruct, TString = ''main.Node'', ElemKind = KInvalid,
     Fields = [\<lparr>FName = ''Next'', FTag = [], FKind = KPtr\<rparr>]\<rparr>"

definition tNodePtr :: rtype where
  "tNodePtr = \<lparr>Kind = KPtr, TString = ''*main.Node'', ElemKind = KInvalid, Fields = []\<rparr>"

definition chainHeap :: heap where
  "chainHeap a =
     (if 1 \<le> a \<and> a \<le> 11 then Some (Cell (VStruct tNode (Some a) [VPtr tNodePtr (Some (a + 1))]))
      else if a = 12 then Some (Cell (VStruct tNode (Some a) [VPtr tNodePtr None]))
      else None)"

text \<open>\<open>Hidden string `pretty:"-"`\<close>\<close>

definition fHidden :: structField where
  "fHidden = \<lparr>FName = ''Hidden'', FTag = ''-'', FKind = KString\<rparr>"

text \<open>
  \<open>type T []T\<close> and \<open>t := make(T, 1); t[0] = t\<close>: a slice whose only element is the
  slice itself.
\<close>

definition tLoop :: rtype where
  "tLoop = \<lparr>Kind = KSlice, TString = ''main.T'', ElemKind = KSlice, Fields = []\<rparr>"

definition loopHeap :: heap where
  "loopHeap a = (if a = 1 then Some (Elems [VSlice tLoop (Some 1)]) else None)"







text \<open>\<open>[]int{1, 2}\<close>, its elements at the address 1, and a value of type \<open>func()\<close>.\<close>

definition tInts :: rtype where
  "tInts = \<lparr>Kind = KSlice, TString = ''[]int'', ElemKind = KInt, Fields = []\<rparr>"

definition intsHeap :: heap where
  "intsHeap a = (if a = 1 then Some (Elems [VInt tInt 1, VInt tInt 2]) else None)"

text \<open>\<open>[]string{""}\<close>, its element at the address 1.\<close>

definition tStrings :: rtype where
  "tStrings = \<lparr>Kind = KSlice, TString = ''[]string'', ElemKind = KString, Fields = []\<rparr>"

definition stringsHeap :: heap where
  "stringsHeap a = (if a = 1 then Some (Elems [VString tString []]) else None)"


section \<open>Properties\<close>

lemmas example_defs = humanized_def structured_def tInt_def tString_def tPoint_def fText_def
  tNote_def fKey_def fPlain_def fHidden_def noHeap_def top_def initial_def

lemmas write_defs = writeString_def writeByte_def fprintf_def flush_def indent_def
  fmtString_def printInline_def lastLine_def nl_def tab_def dquote_def backslash_def
  indentNeeded_def newlineNeeded_def openScope_def fieldName_def fieldValue_def

lemmas kind_defs = printKind_def printStruct_def printMap_def printSeq_def printPtr_def
  printInterface_def printChan_def cyclic_def visit_def canInline_def canExpand_def
  labelType_def getField_def isEmptyValue_def valLen_def IsNil_def ptrElem_def
  sliceElems_def mapEntries_def interfaceElem_def

lemmas tag_defs = parseTag_def Contains_def containsLoop.simps isValidTag_def
  tagPunctuation_def IsLetter_def IsDigit_def TrimSpace_def isSpace_def

subsection \<open>The bound on the activations\<close>

lemma ole_refl: "ole a a"
  by (simp add: ole_def)

lemma ole_bind:
  assumes "ole a b" and "\<And>x. ole (f x) (g x)"
  shows "ole (case a of None \<Rightarrow> None | Some x \<Rightarrow> f x) (case b of None \<Rightarrow> None | Some x \<Rightarrow> g x)"
  using assms by (cases a) (auto simp add: ole_def)

lemma extendsD: "extends pv1 pv2 \<Longrightarrow> ole (pv1 p v st q s) (pv2 p v st q s)"
  by (simp add: extends_def)

lemma seqLoop_extends:
  assumes "extends pv1 pv2"
  shows "ole (seqLoop pv1 cfg t pp e xs s) (seqLoop pv2 cfg t pp e xs s)"
proof (induction xs arbitrary: s)
  case Nil
  show ?case by (simp add: ole_refl)
next
  case (Cons x xs)
  show ?case
    unfolding seqLoop.simps
    by (rule ole_bind, rule extendsD [OF assms], rule Cons.IH)
qed

lemma mapLoop_extends:
  assumes "extends pv1 pv2"
  shows "ole (mapLoop pv1 cfg t pp e es s) (mapLoop pv2 cfg t pp e es s)"
proof (induction es arbitrary: s)
  case Nil
  show ?case by (simp add: ole_refl)
next
  case (Cons x es)
  obtain k mv where x: "x = (k, mv)" by (cases x)
  show ?case
    unfolding x mapLoop.simps Let_def
    by (rule ole_bind, rule extendsD [OF assms], rule ole_bind, rule extendsD [OF assms],
        rule Cons.IH)
qed

lemma fieldValue_extends:
  assumes "extends pv1 pv2"
  shows "ole (fieldValue pv1 cfg pp e fv st m s) (fieldValue pv2 cfg pp e fv st m s)"
  unfolding fieldValue_def
  by (rule ole_bind, rule extendsD [OF assms], rule ole_refl)

lemma structLoop_extends:
  assumes "extends pv1 pv2"
  shows "ole (structLoop pv1 cfg h pp e fs s) (structLoop pv2 cfg h pp e fs s)"
proof (induction fs arbitrary: s)
  case Nil
  show ?case by (simp add: ole_refl)
next
  case (Cons x fs)
  obtain f fv where x: "x = (f, fv)" by (cases x)
  have step: "ole (case fieldValue pv1 cfg pp e fv st m y of None \<Rightarrow> None
                   | Some s1 \<Rightarrow> structLoop pv1 cfg h pp e fs s1)
                  (case fieldValue pv2 cfg pp e fv st m y of None \<Rightarrow> None
                   | Some s1 \<Rightarrow> structLoop pv2 cfg h pp e fs s1)" for st m y
    by (rule ole_bind, rule fieldValue_extends [OF assms], rule Cons.IH)
  show ?case
    by (simp add: x Let_def split_beta step Cons.IH)
qed

lemma close_extends:
  assumes "\<And>pp y. ole (loop1 pp y) (loop2 pp y)"
  shows "ole (let (pp, s3) = openScope cfg p e s
              in case loop1 pp s3 of None \<Rightarrow> None
                 | Some s4 \<Rightarrow> Some (writeByte cfg p CHR ''}'' (if e then flush pp s4 else s4)))
             (let (pp, s3) = openScope cfg p e s
              in case loop2 pp s3 of None \<Rightarrow> None
                 | Some s4 \<Rightarrow> Some (writeByte cfg p CHR ''}'' (if e then flush pp s4 else s4)))"
  unfolding split_beta Let_def
  by (rule ole_bind, rule assms, rule ole_refl)

lemma printMap_extends:
  assumes "extends pv1 pv2"
  shows "ole (printMap pv1 nz cfg h p t r st s) (printMap pv2 nz cfg h p t r st s)"
  using close_extends [of "\<lambda>pp. mapLoop pv1 cfg t pp (\<not> canInline cfg t)
                              (case mapEntries h r of None \<Rightarrow> [] | Some es \<Rightarrow> es)"
                         "\<lambda>pp. mapLoop pv2 cfg t pp (\<not> canInline cfg t)
                              (case mapEntries h r of None \<Rightarrow> [] | Some es \<Rightarrow> es)"
                         cfg p "\<not> canInline cfg t", OF mapLoop_extends [OF assms]]
  by (simp add: printMap_def Let_def ole_refl)

lemma printStruct_extends:
  assumes "extends pv1 pv2"
  shows "ole (printStruct pv1 nz cfg h p t a fs st s) (printStruct pv2 nz cfg h p t a fs st s)"
  using close_extends [of "\<lambda>pp. structLoop pv1 cfg h pp (\<not> canInline cfg t) (zip (Fields t) fs)"
                         "\<lambda>pp. structLoop pv2 cfg h pp (\<not> canInline cfg t) (zip (Fields t) fs)"
                         cfg p "\<not> canInline cfg t", OF structLoop_extends [OF assms]]
  by (simp add: printStruct_def Let_def ole_refl)

lemma printSeq_extends:
  assumes "extends pv1 pv2"
  shows "ole (printSeq pv1 cfg p t xs st s) (printSeq pv2 cfg p t xs st s)"
proof (cases xs)
  case None
  then show ?thesis by (simp add: printSeq_def Let_def ole_refl)
next
  case (Some els)
  show ?thesis
    using close_extends [of "\<lambda>pp. seqLoop pv1 cfg t pp (\<not> canInline cfg t) els"
                           "\<lambda>pp. seqLoop pv2 cfg t pp (\<not> canInline cfg t) els"
                           cfg p "\<not> canInline cfg t", OF seqLoop_extends [OF assms]]
    by (simp add: printSeq_def Let_def Some)
qed

lemma printKind_extends:
  assumes "extends pv1 pv2"
  shows "ole (printKind pv1 nz cfg h p v st q s) (printKind pv2 nz cfg h p v st q s)"
  by (cases v)
     (simp_all add: printKind_def ole_refl printMap_extends [OF assms]
        printStruct_extends [OF assms] printSeq_extends [OF assms] printInterface_def
        printPtr_def Let_def extendsD [OF assms])

lemma printValue_Suc: "extends (printValue n nonzero cfg h) (printValue (Suc n) nonzero cfg h)"
proof (induction n)
  case 0
  show ?case by (simp add: extends_def ole_def)
next
  case (Suc n)
  have "ole (printValue (Suc n) nonzero cfg h p v st q s)
            (printValue (Suc (Suc n)) nonzero cfg h p v st q s)" for p v st q s
  proof (cases "depth p > 10")
    case True
    then show ?thesis by (simp add: ole_refl)
  next
    case False
    let ?st = "if humanize cfg then False else st"
    let ?q = "if humanize cfg then False else q"
    have L: "printValue (Suc n) nonzero cfg h p v st q s
             = printKind (printValue n nonzero cfg h) nonzero cfg h p v ?st ?q s"
      using False by (simp add: Let_def)
    have R: "printValue (Suc (Suc n)) nonzero cfg h p v st q s
             = printKind (printValue (Suc n) nonzero cfg h) nonzero cfg h p v ?st ?q s"
      using False by (subst printValue.simps(2)) (simp add: Let_def del: printValue.simps)
    show ?thesis
      unfolding L R by (rule printKind_extends [OF Suc.IH])
  qed
  then show ?case by (simp add: extends_def del: printValue.simps)
qed

text \<open>
  The bound on the activations only decides whether \<open>printValue\<close> returns: a larger
  bound gives the same result.
\<close>

lemma printValue_mono:
  "printValue n nonzero cfg h p v st q s = Some r \<Longrightarrow>
   printValue (n + k) nonzero cfg h p v st q s = Some r"
proof (induction k)
  case 0
  then show ?case by simp
next
  case (Suc k)
  then show ?case
    using extendsD [OF printValue_Suc, of "n + k" nonzero cfg h p v st q s]
    by (simp add: ole_def del: printValue.simps)
qed


subsection \<open>Inlining\<close>

lemma canExpand_spec: "canExpand k = spec_expandable k"
  by (cases k) (simp_all add: canExpand_def spec_expandable_def)

lemma inlineFields_all: "inlineFields fs = list_all (\<lambda>f. \<not> canExpand (FKind f)) fs"
  by (induction fs) simp_all

text \<open>
  C7. In structured mode \<open>canInline\<close> is the policy of the specification on every type
  the policy speaks of: a record is inlinable iff none of its field types is
  expandable, a map, an array or a slice iff its element type is not expandable, an
  interface, a pointer, a channel and a function never; and \<open>canExpand\<close> holds exactly of
  the kinds map, record, interface, array, slice and pointer.
\<close>

theorem canInline_policy:
  assumes "\<not> humanize cfg"
    and "Kind t \<in> {KStruct, KMap, KArray, KSlice, KInterface, KPtr, KChan, KFunc}"
  shows "canInline cfg t = spec_inlinable t \<and> canExpand k = spec_expandable k"
  using assms
  by (auto simp add: canInline_def spec_inlinable_def inlineFields_all canExpand_spec)

theorem canInline_policy_witness:
  "\<not> humanize structured \<and> Kind tPoint = KStruct \<and> canInline structured tPoint
   \<and> spec_inlinable tPoint \<and> canExpand KPtr \<and> spec_expandable KPtr"
  using canInline_policy [of structured tPoint KPtr]
  by (simp add: structured_def tPoint_def spec_inlinable_def spec_expandable_def)

subsection \<open>Field tags\<close>

lemma out_fieldName:
  "out (fieldName cfg pp expand name s) =
     out s @ [Write (level pp) name, Write (level pp) '':'']
           @ (if expand then [Write (level pp) [tab]] else [])"
  by (simp add: fieldName_def writeString_def writeByte_def Let_def nl_def tab_def)

lemma parseTag_dash_omitempty: "parseTag ''-,omitempty'' = (''-'', ''omitempty'')"
  by (simp add: parseTag_def)


lemma Contains_omitempty: "Contains ''omitempty'' ''omitempty''"
  by (simp add: Contains_def containsLoop.simps)


lemma isValidTag_dash: "isValidTag ''-''"
  by (simp add: isValidTag_def tagPunctuation_def)











text \<open>
  C10. In humanize mode the tag suppresses a field as a whole only when it is exactly
  \<open>-\<close>. With any other tag the field is skipped only for \<open>omitempty\<close> and an empty
  value; with the tag \<open>-,omitempty\<close> the field that is not empty is written under the
  name \<open>-\<close>.
\<close>

theorem dash_tag:
  assumes "humanize cfg" and "FName f \<noteq> []" and "FName g \<noteq> []"
  shows "(FTag g = ''-'' \<longrightarrow>
            structLoop pv cfg h pp expand ((g, gv) # rest) s = structLoop pv cfg h pp expand rest s)
       \<and> (FTag f \<noteq> ''-''
           \<and> \<not> (Contains (snd (parseTag (FTag f))) ''omitempty'' \<and> isEmptyValue h (getField fv)) \<longrightarrow>
            structLoop pv cfg h pp expand ((f, fv) # rest) s =
              (case fieldValue pv cfg pp expand fv False (rest \<noteq> [])
                      (fieldName cfg pp expand
                         (if isValidTag (fst (parseTag (FTag f))) then fst (parseTag (FTag f))
                          else FName f) s) of
                 None \<Rightarrow> None
               | Some s1 \<Rightarrow> structLoop pv cfg h pp expand rest s1))
       \<and> (FTag f = ''-,omitempty'' \<longrightarrow>
            structLoop pv cfg h pp expand ((f, fv) # rest) s =
              (if isEmptyValue h (getField fv) then structLoop pv cfg h pp expand rest s
               else (case fieldValue pv cfg pp expand fv False (rest \<noteq> [])
                            (fieldName cfg pp expand ''-'' s) of
                       None \<Rightarrow> None
                     | Some s1 \<Rightarrow> structLoop pv cfg h pp expand rest s1))
            \<and> out (fieldName cfg pp expand ''-'' s) =
                out s @ [Write (level pp) ''-'', Write (level pp) '':'']
                      @ (if expand then [Write (level pp) [tab]] else []))"
proof (intro conjI impI)
  assume "FTag g = ''-''"
  then show "structLoop pv cfg h pp expand ((g, gv) # rest) s = structLoop pv cfg h pp expand rest s"
    using assms by simp
next
  assume "FTag f \<noteq> ''-''
           \<and> \<not> (Contains (snd (parseTag (FTag f))) ''omitempty'' \<and> isEmptyValue h (getField fv))"
  then show "structLoop pv cfg h pp expand ((f, fv) # rest) s =
              (case fieldValue pv cfg pp expand fv False (rest \<noteq> [])
                      (fieldName cfg pp expand
                         (if isValidTag (fst (parseTag (FTag f))) then fst (parseTag (FTag f))
                          else FName f) s) of
                 None \<Rightarrow> None
               | Some s1 \<Rightarrow> structLoop pv cfg h pp expand rest s1)"
    using assms by (cases "parseTag (FTag f)") auto
next
  assume "FTag f = ''-,omitempty''"
  then show "structLoop pv cfg h pp expand ((f, fv) # rest) s =
              (if isEmptyValue h (getField fv) then structLoop pv cfg h pp expand rest s
               else (case fieldValue pv cfg pp expand fv False (rest \<noteq> [])
                            (fieldName cfg pp expand ''-'' s) of
                       None \<Rightarrow> None
                     | Some s1 \<Rightarrow> structLoop pv cfg h pp expand rest s1))"
    using assms by (simp add: parseTag_dash_omitempty Contains_omitempty isValidTag_dash)
next
  show "out (fieldName cfg pp expand ''-'' s) =
                out s @ [Write (level pp) ''-'', Write (level pp) '':'']
                      @ (if expand then [Write (level pp) [tab]] else [])"
    by (rule out_fieldName)
qed

theorem dash_tag_witness:
  "humanize humanized \<and> FName fKey \<noteq> [] \<and> FName fHidden \<noteq> [] \<and> FTag fHidden = ''-''
   \<and> FTag fKey = ''-,omitempty'' \<and> FTag fKey \<noteq> ''-''
   \<and> \<not> (Contains (snd (parseTag (FTag fKey))) ''omitempty''
          \<and> isEmptyValue noHeap (getField (VString tString ''k1'')))
   \<and> map_option out (structLoop (printValue 1 (\<lambda>v. True) humanized noHeap) humanized noHeap top True
        [(fHidden, VString tString ''k0'')] initial) = Some []
   \<and> map_option out (structLoop (printValue 1 (\<lambda>v. True) humanized noHeap) humanized noHeap top True
        [(fKey, VString tString ''k1'')] initial)
       = Some [Write 0 ''-'', Write 0 '':'', Write 0 [tab], Write 0 ''k1'', Write 0 [nl]]"
  using dash_tag [where f = fKey and g = fHidden and cfg = humanized and h = noHeap
      and fv = "VString tString ''k1''" and gv = "VString tString ''k0''"
      and pv = "printValue 1 (\<lambda>v. True) humanized noHeap"
      and pp = top and expand = True and rest = "[]" and s = initial]
  by (simp add: example_defs write_defs kind_defs tag_defs Let_def)

subsection \<open>The depth counter\<close>

lemma reach_trans: "y \<in> reach h x \<Longrightarrow> x \<in> reach h v \<Longrightarrow> y \<in> reach h v"
  by (induction rule: reach.induct) (auto intro: reach.intros)

lemma mapLoop_cong:
  assumes "\<And>k mv st q s'. (k, mv) \<in> set es \<Longrightarrow>
             pv1 pp k st q s' = pv2 pp k st q s' \<and> pv1 pp mv st q s' = pv2 pp mv st q s'"
  shows "mapLoop pv1 cfg t pp expand es s = mapLoop pv2 cfg t pp expand es s"
  using assms
proof (induction es arbitrary: s)
  case Nil
  show ?case by simp
next
  case (Cons e es)
  obtain k mv where e: "e = (k, mv)" by (cases e)
  have a: "\<And>st q s'. pv1 pp k st q s' = pv2 pp k st q s'"
    and b: "\<And>st q s'. pv1 pp mv st q s' = pv2 pp mv st q s'"
    using Cons.prems [of k mv] e by simp_all
  have c: "\<And>s'. mapLoop pv1 cfg t pp expand es s' = mapLoop pv2 cfg t pp expand es s'"
    by (rule Cons.IH, rule Cons.prems, simp)
  show ?case by (simp add: e a b c Let_def cong: option.case_cong)
qed

lemma fieldValue_cong:
  assumes "\<And>st q s'. pv1 pp (getField fv) st q s' = pv2 pp (getField fv) st q s'"
  shows "fieldValue pv1 cfg pp expand fv st m s = fieldValue pv2 cfg pp expand fv st m s"
  using assms by (simp add: fieldValue_def)

lemma structLoop_cong:
  assumes "\<And>f fv st q s'. (f, fv) \<in> set fs \<Longrightarrow>
             pv1 pp (getField fv) st q s' = pv2 pp (getField fv) st q s'"
  shows "structLoop pv1 cfg h pp expand fs s = structLoop pv2 cfg h pp expand fs s"
  using assms
proof (induction fs arbitrary: s)
  case Nil
  show ?case by simp
next
  case (Cons e fs)
  obtain f fv where e: "e = (f, fv)" by (cases e)
  have a: "\<And>st m s'. fieldValue pv1 cfg pp expand fv st m s' = fieldValue pv2 cfg pp expand fv st m s'"
    using Cons.prems [of f fv] e by (intro fieldValue_cong) simp
  have c: "\<And>s'. structLoop pv1 cfg h pp expand fs s' = structLoop pv2 cfg h pp expand fs s'"
  proof (rule Cons.IH)
    fix f' :: structField and fv' :: val and st q :: bool and s' :: state
    assume "(f', fv') \<in> set fs"
    then show "pv1 pp (getField fv') st q s' = pv2 pp (getField fv') st q s'"
      using Cons.prems [of f' fv'] by simp
  qed
  show ?case by (simp add: e a c Let_def split_beta cong: option.case_cong)
qed

lemma seqLoop_cong:
  assumes "\<And>x st q s'. x \<in> set xs \<Longrightarrow> pv1 pp x st q s' = pv2 pp x st q s'"
  shows "seqLoop pv1 cfg t pp expand xs s = seqLoop pv2 cfg t pp expand xs s"
  using assms
proof (induction xs arbitrary: s)
  case Nil
  show ?case by simp
next
  case (Cons x xs)
  have a: "\<And>st q s'. pv1 pp x st q s' = pv2 pp x st q s'"
    using Cons.prems [of x] by simp
  have c: "\<And>s'. seqLoop pv1 cfg t pp expand xs s' = seqLoop pv2 cfg t pp expand xs s'"
    by (rule Cons.IH, rule Cons.prems, simp)
  show ?case by (simp add: a c cong: option.case_cong)
qed

text \<open>The printer of an opened scope has the depth of the printer that opened it.\<close>

lemma depth_openScope: "depth (fst (openScope cfg p expand s)) = depth p"
  by (simp add: openScope_def indent_def)

lemma printStruct_cong:
  assumes "\<And>pp x st q s'. depth pp = depth p \<Longrightarrow> x \<in> getField ` set fs \<Longrightarrow>
             pv1 pp x st q s' = pv2 pp x st q s'"
  shows "printStruct pv1 nz cfg h p t a fs showType s = printStruct pv2 nz cfg h p t a fs showType s"
proof -
  have "\<And>pp s'. depth pp = depth p \<Longrightarrow>
          structLoop pv1 cfg h pp (\<not> canInline cfg t) (zip (Fields t) fs) s'
          = structLoop pv2 cfg h pp (\<not> canInline cfg t) (zip (Fields t) fs) s'"
    by (rule structLoop_cong) (auto intro!: assms dest: set_zip_rightD)
  then show ?thesis
    using depth_openScope [of cfg p]
    by (simp add: printStruct_def Let_def split_beta)
qed

lemma printMap_cong:
  assumes "\<And>pp x st q s'. depth pp = depth p \<Longrightarrow> x \<in> children h (VMap t r) \<Longrightarrow>
             pv1 pp x st q s' = pv2 pp x st q s'"
  shows "printMap pv1 nz cfg h p t r showType s = printMap pv2 nz cfg h p t r showType s"
proof -
  have "\<And>pp s'. depth pp = depth p \<Longrightarrow>
          mapLoop pv1 cfg t pp (\<not> canInline cfg t) (case mapEntries h r of None \<Rightarrow> [] | Some es \<Rightarrow> es) s'
          = mapLoop pv2 cfg t pp (\<not> canInline cfg t) (case mapEntries h r of None \<Rightarrow> [] | Some es \<Rightarrow> es) s'"
  proof (rule mapLoop_cong)
    fix pp :: printer and s' s'' :: state and k mv :: val and st q :: bool
    assume d: "depth pp = depth p"
      and m: "(k, mv) \<in> set (case mapEntries h r of None \<Rightarrow> [] | Some es \<Rightarrow> es)"
    then obtain es where es: "mapEntries h r = Some es" and km: "(k, mv) \<in> set es"
      by (cases "mapEntries h r") auto
    have "k \<in> children h (VMap t r)" and "mv \<in> children h (VMap t r)"
      using es km by (auto simp add: children_def image_iff intro: bexI [of _ "(k, mv)"])
    then show "pv1 pp k st q s'' = pv2 pp k st q s'' \<and> pv1 pp mv st q s'' = pv2 pp mv st q s''"
      using assms [OF d] by simp
  qed
  then show ?thesis
    using depth_openScope [of cfg p]
    by (simp add: printMap_def Let_def split_beta)
qed

lemma printSeq_cong:
  assumes "\<And>pp x st q s'. depth pp = depth p \<Longrightarrow> x \<in> (case xs of None \<Rightarrow> {} | Some els \<Rightarrow> set els) \<Longrightarrow>
             pv1 pp x st q s' = pv2 pp x st q s'"
  shows "printSeq pv1 cfg p t xs showType s = printSeq pv2 cfg p t xs showType s"
proof (cases xs)
  case None
  then show ?thesis by (simp add: printSeq_def)
next
  case (Some els)
  have "\<And>pp s'. depth pp = depth p \<Longrightarrow>
          seqLoop pv1 cfg t pp (\<not> canInline cfg t) els s' = seqLoop pv2 cfg t pp (\<not> canInline cfg t) els s'"
    by (rule seqLoop_cong) (auto intro!: assms simp add: Some)
  then show ?thesis
    using depth_openScope [of cfg p]
    by (simp add: printSeq_def Some Let_def split_beta)
qed

lemma printKind_cong:
  assumes "kindOf v \<noteq> KPtr" and "kindOf v \<noteq> KInterface"
    and "\<And>pp x st q s'. depth pp = depth p \<Longrightarrow> x \<in> children h v \<Longrightarrow>
             pv1 pp x st q s' = pv2 pp x st q s'"
  shows "printKind pv1 nz cfg h p v showType quote s = printKind pv2 nz cfg h p v showType quote s"
proof (cases v)
  case (VMap t r)
  have "printMap pv1 (nz v) cfg h p t r showType s = printMap pv2 (nz v) cfg h p t r showType s"
    by (rule printMap_cong) (simp add: assms(3) VMap)
  then show ?thesis by (simp add: printKind_def VMap)
next
  case (VStruct t a fs)
  have "printStruct pv1 (nz v) cfg h p t a fs showType s = printStruct pv2 (nz v) cfg h p t a fs showType s"
    by (rule printStruct_cong) (simp add: assms(3) VStruct children_def)
  then show ?thesis by (simp add: printKind_def VStruct)
next
  case (VArray t xs)
  have "printSeq pv1 cfg p t (Some xs) showType s = printSeq pv2 cfg p t (Some xs) showType s"
    by (rule printSeq_cong) (simp add: assms(3) VArray children_def)
  then show ?thesis by (simp add: printKind_def VArray)
next
  case (VSlice t r)
  have "printSeq pv1 cfg p t (sliceElems h r) showType s = printSeq pv2 cfg p t (sliceElems h r) showType s"
    by (rule printSeq_cong) (simp add: assms(3) VSlice children_def)
  then show ?thesis by (simp add: printKind_def VSlice)
qed (use assms(1,2) in \<open>simp_all add: printKind_def\<close>)

lemma getField_id: "kindOf fv \<noteq> KInterface \<Longrightarrow> getField fv = fv"
  by (simp add: getField_def)

lemma children_reach:
  assumes "\<forall>x \<in> reach h v. kindOf x \<noteq> KInterface" and "x \<in> children h v"
  shows "x \<in> reach h v"
proof (cases v)
  case (VStruct t a fs)
  from assms(2) obtain fv where fv: "fv \<in> set fs" and x: "x = getField fv"
    by (auto simp add: children_def VStruct)
  have r: "fv \<in> reach h v"
    using reach.field [of t a fs h v fv] reach.self [of v h] fv VStruct by simp
  with assms(1) have "getField fv = fv" by (simp add: getField_id)
  with r x show ?thesis by simp
next
  case (VArray t xs)
  from assms(2) have "x \<in> set xs" by (simp add: children_def VArray)
  then show ?thesis
    using reach.index [of t xs h v x] reach.self [of v h] VArray by simp
next
  case (VSlice t r)
  from assms(2) obtain xs where "sliceElems h r = Some xs" and "x \<in> set xs"
    by (cases "sliceElems h r") (simp_all add: children_def VSlice)
  then show ?thesis
    using reach.sliceIndex [of t r h v xs x] reach.self [of v h] VSlice by simp
next
  case (VMap t r)
  from assms(2) obtain es where es: "mapEntries h r = Some es"
    and x: "x \<in> fst ` set es \<or> x \<in> snd ` set es"
    by (cases "mapEntries h r") (simp_all add: children_def VMap)
  from x show ?thesis
  proof
    assume "x \<in> fst ` set es"
    then obtain y where "(x, y) \<in> set es" by (metis fst_conv imageE surj_pair)
    then show ?thesis
      using reach.mapKey [of t r h v es x y] reach.self [of v h] VMap es by simp
  next
    assume "x \<in> snd ` set es"
    then obtain k where "(k, x) \<in> set es" by (metis snd_conv imageE surj_pair)
    then show ?thesis
      using reach.mapIndex [of t r h v es k x] reach.self [of v h] VMap es by simp
  qed
qed (use assms(2) in \<open>simp_all add: children_def\<close>)

text \<open>
  C9. When no pointer and no interface can be reached from the value, printing it at a
  depth of at most 10 is printing it without the test of the depth, whatever the
  nesting: every activation runs at the depth of the first, and the depth-exceeded
  branch is never taken.
\<close>

theorem no_pointer_no_cap:
  assumes "\<forall>x \<in> reach h v. kindOf x \<noteq> KPtr \<and> kindOf x \<noteq> KInterface" and "depth p \<le> 10"
  shows "printValue n nonzero cfg h p v showType quote s
         = printValueNoCap n nonzero cfg h p v showType quote s"
  using assms
proof (induction n arbitrary: p v showType quote s)
  case 0
  show ?case by simp
next
  case (Suc n)
  have ok: "kindOf v \<noteq> KPtr" "kindOf v \<noteq> KInterface"
    using Suc.prems(1) reach.self [of v h] by auto
  have ch: "printValue n nonzero cfg h pp x st q s' = printValueNoCap n nonzero cfg h pp x st q s'"
    if d: "depth pp = depth p" and x: "x \<in> children h v" for pp x st q s'
  proof (rule Suc.IH)
    have xr: "x \<in> reach h v"
    proof (rule children_reach)
      show "\<forall>x \<in> reach h v. kindOf x \<noteq> KInterface" using Suc.prems(1) by simp
      show "x \<in> children h v" by (rule x)
    qed
    show "\<forall>y \<in> reach h x. kindOf y \<noteq> KPtr \<and> kindOf y \<noteq> KInterface"
    proof
      fix y assume "y \<in> reach h x"
      then have "y \<in> reach h v" using xr by (rule reach_trans)
      then show "kindOf y \<noteq> KPtr \<and> kindOf y \<noteq> KInterface" using Suc.prems(1) by simp
    qed
    show "depth pp \<le> 10" using d Suc.prems(2) by simp
  qed
  have "printKind (printValue n nonzero cfg h) nonzero cfg h p v st q s
        = printKind (printValueNoCap n nonzero cfg h) nonzero cfg h p v st q s" for st q
    by (rule printKind_cong [OF ok]) (rule ch)
  then show ?case using Suc.prems(2) by (simp add: Let_def)
qed

lemma nest_eq: "nest j = VStruct (tLevel j) None (if j = 0 then [VInt tInt 7] else [nest (j - 1)])"
  by (cases j) simp_all

lemma reach_nest: "x \<in> reach h (nest k) \<Longrightarrow> (\<exists>j. x = nest j) \<or> x = VInt tInt 7"
proof (induction rule: reach.induct)
  case self
  show ?case by blast
next
  case (field t a fs x)
  from field.IH obtain j where "VStruct t a fs = nest j" by auto
  then have "fs = (if j = 0 then [VInt tInt 7] else [nest (j - 1)])"
    using nest_eq [of j] by simp
  with field.hyps(2) show ?case by (auto split: if_splits)
next
  case (index t xs x)
  then show ?case using nest_eq by auto
next
  case (sliceIndex t r xs x)
  then show ?case using nest_eq by auto
next
  case (mapKey t r es k x)
  then show ?case using nest_eq by auto
next
  case (mapIndex t r es k x)
  then show ?case using nest_eq by auto
next
  case (interface t x)
  then show ?case using nest_eq by auto
next
  case (pointer t a x)
  then show ?case using nest_eq by auto
qed

lemma plain_nest: "\<forall>x \<in> reach h (nest k). kindOf x \<noteq> KPtr \<and> kindOf x \<noteq> KInterface"
proof
  fix x assume "x \<in> reach h (nest k)"
  then have "(\<exists>j. x = nest j) \<or> x = VInt tInt 7" by (rule reach_nest)
  then show "kindOf x \<noteq> KPtr \<and> kindOf x \<noteq> KInterface"
    using nest_eq by auto
qed

text \<open>Twelve records nested by value: the cap is not reached.\<close>

theorem no_pointer_no_cap_witness:
  "depth top \<le> 10
   \<and> printValue 13 (\<lambda>v. True) structured noHeap top (nest 11) True True initial
       = printValueNoCap 13 (\<lambda>v. True) structured noHeap top (nest 11) True True initial
   \<and> map_option (writes ''!%v(DEPTH EXCEEDED)'' \<circ> out)
        (printValue 13 (\<lambda>v. True) structured noHeap top (nest 11) True True initial) = Some 0"
proof -
  have a: "\<forall>x \<in> reach noHeap (nest 11). kindOf x \<noteq> KPtr \<and> kindOf x \<noteq> KInterface"
    by (rule plain_nest)
  have b: "depth top \<le> 10" by (simp add: top_def)
  have c: "map_option (writes ''!%v(DEPTH EXCEEDED)'' \<circ> out)
        (printValue 13 (\<lambda>v. True) structured noHeap top (nest 11) True True initial) = Some 0"
    by code_simp
  show ?thesis
    using a b c no_pointer_no_cap [OF a b, of 13 "\<lambda>v. True" structured True True initial]
    by simp
qed

text \<open>
  C2. \<open>printValue\<close> writes the depth-exceeded sentinel, and nothing else, exactly
  when its depth counter exceeds 10 on entry; otherwise it dispatches on the kind. The
  counter is raised by one where a non-nil pointer or the value in a non-nil interface
  is entered, and the record, map, array and slice cases call the printer at their own
  depth only: what counts is the number of pointers and interfaces entered, not the
  nesting of records.
\<close>

theorem depth_cap:
  "(depth p > 10 \<longrightarrow>
      printValue (Suc n) nonzero cfg h p v showType quote s
      = Some (writeString cfg p ''!%v(DEPTH EXCEEDED)'' s))
   \<and> (depth p' \<le> 10 \<longrightarrow>
      printValue (Suc n) nonzero cfg h p' v showType quote s
      = printKind (printValue n nonzero cfg h) nonzero cfg h p' v
          (\<not> humanize cfg \<and> showType) (\<not> humanize cfg \<and> quote) s)
   \<and> (kindOf (ptrElem h r) \<noteq> KInvalid \<longrightarrow>
      printKind pv nonzero cfg h p' (VPtr t r) showType quote s
      = pv (p'\<lparr>depth := depth p' + 1\<rparr>) (ptrElem h r) True True
          (if humanize cfg then s else writeByte cfg p' CHR ''&'' s))
   \<and> (kindOf x \<noteq> KInvalid \<longrightarrow>
      printKind pv nonzero cfg h p' (VInterface t (Some x)) showType quote s
      = pv (p'\<lparr>depth := depth p' + 1\<rparr>) x showType True s)
   \<and> (kindOf w \<noteq> KPtr \<and> kindOf w \<noteq> KInterface
        \<and> (\<forall>pp y st q s'. depth pp = depth p' \<longrightarrow> pva pp y st q s' = pvb pp y st q s') \<longrightarrow>
      printKind pva nonzero cfg h p' w showType quote s
      = printKind pvb nonzero cfg h p' w showType quote s)"
proof (intro conjI impI)
  assume "depth p > 10"
  then show "printValue (Suc n) nonzero cfg h p v showType quote s
      = Some (writeString cfg p ''!%v(DEPTH EXCEEDED)'' s)"
    by simp
next
  assume "depth p' \<le> 10"
  then show "printValue (Suc n) nonzero cfg h p' v showType quote s
      = printKind (printValue n nonzero cfg h) nonzero cfg h p' v
          (\<not> humanize cfg \<and> showType) (\<not> humanize cfg \<and> quote) s"
    by (simp add: Let_def)
next
  assume "kindOf (ptrElem h r) \<noteq> KInvalid"
  then show "printKind pv nonzero cfg h p' (VPtr t r) showType quote s
      = pv (p'\<lparr>depth := depth p' + 1\<rparr>) (ptrElem h r) True True
          (if humanize cfg then s else writeByte cfg p' CHR ''&'' s)"
    by (simp add: printKind_def printPtr_def Let_def writeByte_def)
next
  assume "kindOf x \<noteq> KInvalid"
  then show "printKind pv nonzero cfg h p' (VInterface t (Some x)) showType quote s
      = pv (p'\<lparr>depth := depth p' + 1\<rparr>) x showType True s"
    by (simp add: printKind_def printInterface_def interfaceElem_def)
next
  assume a: "kindOf w \<noteq> KPtr \<and> kindOf w \<noteq> KInterface
        \<and> (\<forall>pp y st q s'. depth pp = depth p' \<longrightarrow> pva pp y st q s' = pvb pp y st q s')"
  show "printKind pva nonzero cfg h p' w showType quote s
      = printKind pvb nonzero cfg h p' w showType quote s"
    by (rule printKind_cong) (use a in simp_all)
qed

text \<open>
  Twelve records nested by value are rendered without the sentinel, although the
  innermost is at the twelfth structural level.
\<close>

theorem depth_cap_counterexample:
  "map_option (writes ''!%v(DEPTH EXCEEDED)'' \<circ> out)
     (Format 13 (\<lambda>v. True) structured noHeap (nest 11) True initial) = Some 0"
  by code_simp

text \<open>
  From a pointer to the first of twelve nodes linked by pointers, ten nodes are
  rendered and the eleventh is replaced by the sentinel.
\<close>

theorem depth_cap_witness:
  "depth \<lparr>level = 0, depth = 11\<rparr> > 10
   \<and> printValue 1 (\<lambda>v. True) structured chainHeap \<lparr>level = 0, depth = 11\<rparr> (VInt tInt 7) True True initial
       = Some (initial\<lparr>out := [Write 0 ''!%v(DEPTH EXCEEDED)'']\<rparr>)
   \<and> depth top \<le> 10 \<and> kindOf (ptrElem chainHeap (Some 1)) \<noteq> KInvalid
   \<and> kindOf (VInt tInt 7) \<noteq> KInvalid \<and> kindOf (VInt tInt 7) \<noteq> KPtr \<and> kindOf (VInt tInt 7) \<noteq> KInterface
   \<and> map_option (writes ''main.Node'' \<circ> out)
        (Format 22 (\<lambda>v. True) structured chainHeap (VPtr tNodePtr (Some 1)) True initial) = Some 10
   \<and> map_option (writes ''!%v(DEPTH EXCEEDED)'' \<circ> out)
        (Format 22 (\<lambda>v. True) structured chainHeap (VPtr tNodePtr (Some 1)) True initial) = Some 1"
proof -
  have a: "map_option (writes ''main.Node'' \<circ> out)
        (Format 22 (\<lambda>v. True) structured chainHeap (VPtr tNodePtr (Some 1)) True initial) = Some 10"
    by code_simp
  have b: "map_option (writes ''!%v(DEPTH EXCEEDED)'' \<circ> out)
        (Format 22 (\<lambda>v. True) structured chainHeap (VPtr tNodePtr (Some 1)) True initial) = Some 1"
    by code_simp
  have c: "kindOf (ptrElem chainHeap (Some 1)) \<noteq> KInvalid"
    by (simp add: ptrElem_def chainHeap_def)
  show ?thesis
    using a b c
      depth_cap [where p = "\<lparr>level = 0, depth = 11\<rparr>" and n = 0 and nonzero = "\<lambda>v. True"
        and cfg = structured and h = chainHeap and v = "VInt tInt 7" and showType = True
        and quote = True and s = initial and p' = top and r = "Some 1" and x = "VInt tInt 7"
        and w = "VInt tInt 7" and pva = "printValue 1 (\<lambda>v. True) structured chainHeap"
        and pvb = "printValue 1 (\<lambda>v. True) structured chainHeap"]
    by (simp add: top_def initial_def structured_def writeString_def)
qed

subsection \<open>Termination\<close>

lemma sliceElems_loopHeap: "sliceElems loopHeap (Some 1) = Some [VSlice tLoop (Some 1)]"
  by (simp add: sliceElems_def loopHeap_def)

lemma self_slice_loops:
  "depth p \<le> 10 \<Longrightarrow>
   printValue n nonzero cfg loopHeap p (VSlice tLoop (Some 1)) showType quote s = None"
proof (induction n arbitrary: p showType quote s)
  case 0
  show ?case by simp
next
  case (Suc n)
  have inner: "printValue n nonzero cfg loopHeap (fst (openScope cfg p e s'))
                 (VSlice tLoop (Some 1)) st q s'' = None" for e s' st q s''
    by (rule Suc.IH) (simp add: depth_openScope Suc.prems)
  have loop: "seqLoop (printValue n nonzero cfg loopHeap) cfg tLoop (fst (openScope cfg p e s')) e
          [VSlice tLoop (Some 1)] s'' = None" for e s' s''
    by (simp only: seqLoop.simps inner option.case)
  have "printSeq (printValue n nonzero cfg loopHeap) cfg p tLoop
          (sliceElems loopHeap (Some 1)) st s = None" for st
    by (simp only: printSeq_def sliceElems_loopHeap Let_def split_beta option.case loop)
  then show ?case
    using Suc.prems by (simp add: printKind_def Let_def del: One_nat_def)
qed

text \<open>
  C4. The render of the slice that contains itself does not return, whatever the number
  of nested activations it is given: no pointer and no interface is entered, so the
  depth stays 0, and no record is met, so \<open>visited\<close> is never consulted.
\<close>

theorem self_slice_never_returns:
  "Format n nonzero cfg loopHeap (VSlice tLoop (Some 1)) quote s = None"
  by (simp add: Format_def Let_def self_slice_loops del: One_nat_def)

subsection \<open>Cycles\<close>



























subsection \<open>Two renders in a row\<close>

lemma sim_bind:
  assumes "rel_option sim a b" and "\<And>x y. sim x y \<Longrightarrow> rel_option sim (f x) (g y)"
  shows "rel_option sim (case a of None \<Rightarrow> None | Some x \<Rightarrow> f x)
                        (case b of None \<Rightarrow> None | Some y \<Rightarrow> g y)"
  using assms by (cases a; cases b) simp_all

lemma sim_writeString: "\<not> humanize cfg \<Longrightarrow> sim s s' \<Longrightarrow> sim (writeString cfg p str s) (writeString cfg p str s')"
  by (simp add: sim_def writeString_def)

lemma sim_writeByte: "\<not> humanize cfg \<Longrightarrow> sim s s' \<Longrightarrow> sim (writeByte cfg p b s) (writeByte cfg p b s')"
  by (simp add: sim_def writeByte_def)

lemma sim_fprintf: "sim s s' \<Longrightarrow> sim (fprintf p str s) (fprintf p str s')"
  by (simp add: sim_def fprintf_def)

lemma sim_flush: "sim s s' \<Longrightarrow> sim (flush p s) (flush p s')"
  by (simp add: sim_def flush_def)

lemma sim_visit: "sim s s' \<Longrightarrow> sim (visit p t a s) (visit p t a s')"
  by (simp add: sim_def visit_def split: option.splits)

lemma sim_cyclic: "sim s s' \<Longrightarrow> cyclic p t a s = cyclic p t a s'"
  by (simp add: sim_def cyclic_def split: option.splits)

lemma sim_printInline:
  "\<not> humanize cfg \<Longrightarrow> sim s s' \<Longrightarrow> sim (printInline cfg p t x st s) (printInline cfg p t x st s')"
  by (simp add: printInline_def sim_fprintf sim_writeString)

lemma sim_fmtString:
  "\<not> humanize cfg \<Longrightarrow> sim s s' \<Longrightarrow> sim (fmtString cfg p x q s) (fmtString cfg p x q s')"
  by (simp add: fmtString_def sim_writeString)

lemma sim_printChan:
  "\<not> humanize cfg \<Longrightarrow> sim s s' \<Longrightarrow> sim (printChan cfg p t x st s) (printChan cfg p t x st s')"
  by (simp add: printChan_def sim_fprintf sim_writeString sim_writeByte)

lemma sim_fieldName:
  "\<not> humanize cfg \<Longrightarrow> sim s s' \<Longrightarrow> sim (fieldName cfg pp e name s) (fieldName cfg pp e name s')"
  by (simp add: fieldName_def Let_def sim_writeString sim_writeByte)

lemma sim_openScope:
  assumes "\<not> humanize cfg" and "sim s s'"
  shows "fst (openScope cfg p e s) = fst (openScope cfg p e s')"
    and "sim (snd (openScope cfg p e s)) (snd (openScope cfg p e s'))"
  using assms sim_writeByte [OF assms, of p nl]
  by (simp_all add: openScope_def indentNeeded_def indent_def sim_def)

lemma sim_seqLoop:
  assumes "\<not> humanize cfg" and "keeps_sim pv" and "sim s s'"
  shows "rel_option sim (seqLoop pv cfg t pp e xs s) (seqLoop pv cfg t pp e xs s')"
  using assms(3)
proof (induction xs arbitrary: s s')
  case Nil
  then show ?case by simp
next
  case (Cons x xs)
  have a: "rel_option sim (pv pp x (ElemKind t = KInterface) True s)
                          (pv pp x (ElemKind t = KInterface) True s')"
    using assms(2) Cons.prems by (simp add: keeps_sim_def)
  show ?case
    unfolding seqLoop.simps
    by (rule sim_bind [OF a], rule Cons.IH)
       (simp add: assms(1) sim_writeString)
qed

lemma sim_mapLoop:
  assumes "\<not> humanize cfg" and "keeps_sim pv" and "sim s s'"
  shows "rel_option sim (mapLoop pv cfg t pp e es s) (mapLoop pv cfg t pp e es s')"
  using assms(3)
proof (induction es arbitrary: s s')
  case Nil
  then show ?case by simp
next
  case (Cons x es)
  obtain k mv where x: "x = (k, mv)" by (cases x)
  have a: "rel_option sim (pv pp k False True s) (pv pp k False True s')"
    using assms(2) Cons.prems by (simp add: keeps_sim_def)
  have b: "rel_option sim (pv pp mv st True y) (pv pp mv st True y')" if "sim y y'" for st y y'
    using assms(2) that by (simp add: keeps_sim_def)
  show ?case
    unfolding x mapLoop.simps Let_def
    by (rule sim_bind [OF a], rule sim_bind, rule b)
       (simp_all add: assms(1) sim_writeString sim_writeByte Cons.IH)
qed

lemma sim_fieldValue:
  assumes "\<not> humanize cfg" and "keeps_sim pv" and "sim s s'"
  shows "rel_option sim (fieldValue pv cfg pp e fv st m s) (fieldValue pv cfg pp e fv st m s')"
proof -
  have a: "rel_option sim (pv pp (getField fv) st True s) (pv pp (getField fv) st True s')"
    using assms(2,3) by (simp add: keeps_sim_def)
  show ?thesis
    unfolding fieldValue_def
    by (rule sim_bind [OF a]) (simp add: assms(1) sim_writeString)
qed

lemma sim_structLoop:
  assumes "\<not> humanize cfg" and "keeps_sim pv" and "sim s s'"
  shows "rel_option sim (structLoop pv cfg h pp e fs s) (structLoop pv cfg h pp e fs s')"
  using assms(3)
proof (induction fs arbitrary: s s')
  case Nil
  then show ?case by simp
next
  case (Cons x fs)
  obtain f fv where x: "x = (f, fv)" by (cases x)
  show ?case
  proof (cases "FName f \<noteq> []")
    case True
    have a: "rel_option sim
       (fieldValue pv cfg pp e fv (labelType (FKind f)) (fs \<noteq> []) (fieldName cfg pp e (FName f) s))
       (fieldValue pv cfg pp e fv (labelType (FKind f)) (fs \<noteq> []) (fieldName cfg pp e (FName f) s'))"
      by (rule sim_fieldValue [OF assms(1,2)]) (rule sim_fieldName [OF assms(1) Cons.prems])
    show ?thesis
      using True assms(1) sim_bind [OF a Cons.IH] by (simp add: x)
  next
    case False
    have a: "rel_option sim (fieldValue pv cfg pp e fv True (fs \<noteq> []) s)
                            (fieldValue pv cfg pp e fv True (fs \<noteq> []) s')"
      by (rule sim_fieldValue [OF assms(1,2) Cons.prems])
    show ?thesis
      using False assms(1) sim_bind [OF a Cons.IH] by (simp add: x)
  qed
qed

lemma sim_composite:
  assumes "\<not> humanize cfg" and "sim s s'"
    and "\<And>pp y y'. sim y y' \<Longrightarrow> rel_option sim (loop pp y) (loop pp y')"
  shows "rel_option sim
    (let (pp, s3) = openScope cfg p e s
     in case loop pp s3 of None \<Rightarrow> None
        | Some s4 \<Rightarrow> Some (writeByte cfg p CHR ''}'' (if e then flush pp s4 else s4)))
    (let (pp, s3) = openScope cfg p e s'
     in case loop pp s3 of None \<Rightarrow> None
        | Some s4 \<Rightarrow> Some (writeByte cfg p CHR ''}'' (if e then flush pp s4 else s4)))"
proof -
  have a: "rel_option sim (loop (fst (openScope cfg p e s)) (snd (openScope cfg p e s)))
                          (loop (fst (openScope cfg p e s)) (snd (openScope cfg p e s')))"
    by (rule assms(3)) (rule sim_openScope(2) [OF assms(1,2)])
  show ?thesis
    unfolding split_beta Let_def sim_openScope(1) [OF assms(1,2), of p e, symmetric]
    by (rule sim_bind [OF a]) (simp add: assms(1) sim_writeByte sim_flush)
qed

lemma sim_printMap:
  assumes "\<not> humanize cfg" and "keeps_sim pv" and "sim s s'"
  shows "rel_option sim (printMap pv nz cfg h p t r st s) (printMap pv nz cfg h p t r st s')"
proof -
  let ?w = "\<lambda>s. writeByte cfg p CHR ''{'' (if st then writeString cfg p (TString t) s else s)"
  have w: "sim (?w s) (?w s')"
    using assms(1,3) by (simp add: sim_writeByte sim_writeString)
  have "rel_option sim
    (let (pp, s3) = openScope cfg p (\<not> canInline cfg t) (?w s)
     in case mapLoop pv cfg t pp (\<not> canInline cfg t)
               (case mapEntries h r of None \<Rightarrow> [] | Some es \<Rightarrow> es) s3 of None \<Rightarrow> None
        | Some s4 \<Rightarrow> Some (writeByte cfg p CHR ''}'' (if \<not> canInline cfg t then flush pp s4 else s4)))
    (let (pp, s3) = openScope cfg p (\<not> canInline cfg t) (?w s')
     in case mapLoop pv cfg t pp (\<not> canInline cfg t)
               (case mapEntries h r of None \<Rightarrow> [] | Some es \<Rightarrow> es) s3 of None \<Rightarrow> None
        | Some s4 \<Rightarrow> Some (writeByte cfg p CHR ''}'' (if \<not> canInline cfg t then flush pp s4 else s4)))"
    by (rule sim_composite [OF assms(1) w]) (rule sim_mapLoop [OF assms(1,2)])
  then show ?thesis
    using assms(1) w by (cases st; cases nz) (simp_all add: printMap_def Let_def sim_writeByte)
qed

lemma sim_printStruct:
  assumes "\<not> humanize cfg" and "keeps_sim pv" and "sim s s'"
  shows "rel_option sim (printStruct pv nz cfg h p t a fs st s) (printStruct pv nz cfg h p t a fs st s')"
proof -
  let ?w = "\<lambda>s. writeByte cfg p CHR ''{''
                  (if st then writeString cfg p (TString t) (visit p t a s) else visit p t a s)"
  have w: "sim (?w s) (?w s')"
    using assms(1,3) by (simp add: sim_writeByte sim_writeString sim_visit)
  have "rel_option sim
    (let (pp, s3) = openScope cfg p (\<not> canInline cfg t) (?w s)
     in case structLoop pv cfg h pp (\<not> canInline cfg t) (zip (Fields t) fs) s3 of None \<Rightarrow> None
        | Some s4 \<Rightarrow> Some (writeByte cfg p CHR ''}'' (if \<not> canInline cfg t then flush pp s4 else s4)))
    (let (pp, s3) = openScope cfg p (\<not> canInline cfg t) (?w s')
     in case structLoop pv cfg h pp (\<not> canInline cfg t) (zip (Fields t) fs) s3 of None \<Rightarrow> None
        | Some s4 \<Rightarrow> Some (writeByte cfg p CHR ''}'' (if \<not> canInline cfg t then flush pp s4 else s4)))"
    by (rule sim_composite [OF assms(1) w]) (rule sim_structLoop [OF assms(1,2)])
  then show ?thesis
    using assms(1) w sim_cyclic [OF assms(3), of p t a] sim_fmtString [OF assms(1,3)]
    by (cases st; cases nz) (simp_all add: printStruct_def Let_def sim_writeByte)
qed

lemma sim_printSeq:
  assumes "\<not> humanize cfg" and "keeps_sim pv" and "sim s s'"
  shows "rel_option sim (printSeq pv cfg p t xs st s) (printSeq pv cfg p t xs st s')"
proof (cases xs)
  case None
  then show ?thesis
    using assms(1,3) by (simp add: printSeq_def Let_def sim_writeString)
next
  case (Some els)
  let ?w = "\<lambda>s. writeByte cfg p CHR ''{'' (if st then writeString cfg p (TString t) s else s)"
  have w: "sim (?w s) (?w s')"
    using assms(1,3) by (simp add: sim_writeByte sim_writeString)
  have "rel_option sim
    (let (pp, s3) = openScope cfg p (\<not> canInline cfg t) (?w s)
     in case seqLoop pv cfg t pp (\<not> canInline cfg t) els s3 of None \<Rightarrow> None
        | Some s4 \<Rightarrow> Some (writeByte cfg p CHR ''}'' (if \<not> canInline cfg t then flush pp s4 else s4)))
    (let (pp, s3) = openScope cfg p (\<not> canInline cfg t) (?w s')
     in case seqLoop pv cfg t pp (\<not> canInline cfg t) els s3 of None \<Rightarrow> None
        | Some s4 \<Rightarrow> Some (writeByte cfg p CHR ''}'' (if \<not> canInline cfg t then flush pp s4 else s4)))"
    by (rule sim_composite [OF assms(1) w]) (rule sim_seqLoop [OF assms(1,2)])
  then show ?thesis
    by (cases st) (simp_all add: printSeq_def Let_def Some)
qed

lemma sim_printInterface:
  assumes "\<not> humanize cfg" and "keeps_sim pv" and "sim s s'"
  shows "rel_option sim (printInterface pv cfg p t e st s) (printInterface pv cfg p t e st s')"
  using assms by (simp add: printInterface_def sim_writeString keeps_sim_def)

lemma sim_printPtr:
  assumes "\<not> humanize cfg" and "keeps_sim pv" and "sim s s'"
  shows "rel_option sim (printPtr pv cfg h p t r s) (printPtr pv cfg h p t r s')"
  using assms by (simp add: printPtr_def Let_def sim_writeString sim_writeByte keeps_sim_def)

lemma sim_printKind:
  assumes "\<not> humanize cfg" and "keeps_sim pv" and "sim s s'"
  shows "rel_option sim (printKind pv nz cfg h p v st q s) (printKind pv nz cfg h p v st q s')"
  using assms
  by (cases v)
     (simp_all add: printKind_def sim_printInline sim_fprintf sim_fmtString sim_printMap
        sim_printStruct sim_printInterface sim_printSeq sim_printPtr sim_printChan sim_writeString)

lemma keeps_sim_printValue: "\<not> humanize cfg \<Longrightarrow> keeps_sim (printValue n nonzero cfg h)"
proof (induction n)
  case 0
  show ?case by (simp add: keeps_sim_def)
next
  case (Suc n)
  show ?case
    unfolding keeps_sim_def
  proof (intro allI impI)
    fix p v st q s s'
    assume "sim s s'"
    then show "rel_option sim (printValue (Suc n) nonzero cfg h p v st q s)
                              (printValue (Suc n) nonzero cfg h p v st q s')"
      using sim_printKind [OF Suc.prems Suc.IH [OF Suc.prems]] Suc.prems
      by (simp add: sim_writeString)
  qed
qed

text \<open>
  C1. Take a render that returns. In structured mode the next render of the same value
  under the same configuration, started from the state the first has left, returns
  as well and writes the same output. In either mode the render started again from
  the two cells of the layout tracker that the first render found gives the result of
  the first.
\<close>

theorem render_repeats:
  assumes "Format n nonzero cfg h x quote (g\<lparr>out := []\<rparr>) = Some r"
  shows "(\<not> humanize cfg \<longrightarrow>
           (\<exists>r'. Format n nonzero cfg h x quote (r\<lparr>out := []\<rparr>) = Some r' \<and> out r' = out r))
       \<and> Format n nonzero cfg h x quote
            (r\<lparr>out := [], currOutputLine := currOutputLine g,
               sawCloseBracketLast := sawCloseBracketLast g\<rparr>) = Some r"
proof (intro conjI impI)
  assume st: "\<not> humanize cfg"
  let ?p = "\<lparr>level = 0, depth = 0\<rparr>"
  have s: "sim (g\<lparr>out := [], visited := []\<rparr>) (r\<lparr>out := [], visited := []\<rparr>)"
    by (simp add: sim_def)
  have "rel_option sim (printValue n nonzero cfg h ?p x True quote (g\<lparr>out := [], visited := []\<rparr>))
                       (printValue n nonzero cfg h ?p x True quote (r\<lparr>out := [], visited := []\<rparr>))"
    using keeps_sim_printValue [OF st, of n nonzero h] s by (simp add: keeps_sim_def)
  moreover obtain r1 where
    "printValue n nonzero cfg h ?p x True quote (g\<lparr>out := [], visited := []\<rparr>) = Some r1"
    and "r = flush ?p r1"
    using assms by (auto simp add: Format_def Let_def split: option.splits)
  ultimately obtain r2 where
    "printValue n nonzero cfg h ?p x True quote (r\<lparr>out := [], visited := []\<rparr>) = Some r2"
    and "sim r1 r2"
    by (auto simp add: option_rel_Some1)
  then show "\<exists>r'. Format n nonzero cfg h x quote (r\<lparr>out := []\<rparr>) = Some r' \<and> out r' = out r"
    using \<open>r = flush ?p r1\<close> by (simp add: Format_def Let_def sim_def flush_def)
next
  have eq: "r\<lparr>out := [], currOutputLine := currOutputLine g,
           sawCloseBracketLast := sawCloseBracketLast g, visited := []\<rparr>
        = g\<lparr>out := [], visited := []\<rparr>"
    by (cases r, cases g) simp
  show "Format n nonzero cfg h x quote
            (r\<lparr>out := [], currOutputLine := currOutputLine g,
               sawCloseBracketLast := sawCloseBracketLast g\<rparr>) = Some r"
    using assms unfolding Format_def eq by assumption
qed

theorem render_repeats_witness:
  "\<not> humanize structured
   \<and> Format 2 (\<lambda>v. True) structured intsHeap (VSlice tInts (Some 1)) True (initial\<lparr>out := []\<rparr>)
       = Some \<lparr>out = [Write 0 ''[]int'', Write 0 ''{'', Write 0 ''1'', Write 0 '', '', Write 0 ''2'',
                      Write 0 ''}'', Flush 0],
               currOutputLine = [], sawCloseBracketLast = 0, visited = []\<rparr>
   \<and> map_option out
        (Format 2 (\<lambda>v. True) structured intsHeap (VSlice tInts (Some 1)) True
           \<lparr>out = [], currOutputLine = [], sawCloseBracketLast = 0, visited = []\<rparr>)
       = Some [Write 0 ''[]int'', Write 0 ''{'', Write 0 ''1'', Write 0 '', '', Write 0 ''2'',
               Write 0 ''}'', Flush 0]"
proof -
  have e: "Format 2 (\<lambda>v. True) structured intsHeap (VSlice tInts (Some 1)) True (initial\<lparr>out := []\<rparr>)
       = Some \<lparr>out = [Write 0 ''[]int'', Write 0 ''{'', Write 0 ''1'', Write 0 '', '', Write 0 ''2'',
                      Write 0 ''}'', Flush 0],
               currOutputLine = [], sawCloseBracketLast = 0, visited = []\<rparr>"
    by code_simp
  have st: "\<not> humanize structured" by (simp add: structured_def)
  show ?thesis
    using render_repeats [OF e] e st by (auto simp del: printValue.simps)
qed

text \<open>
  In humanize mode the first render of \<open>[]string{""}\<close> ends the empty element with a
  newline; the second finds the bracket counter at 1, which the write of the empty
  string leaves as it is, and writes nothing. Likewise the first render of
  \<open>[]int{1, 2}\<close> writes each element on a line of its own and the second writes them
  without a separation.
\<close>

theorem render_repeats_counterexample:
  "map_option (written \<circ> out)
     (Format 2 (\<lambda>v. True) humanized stringsHeap (VSlice tStrings (Some 1)) True initial)
     = Some [nl]
   \<and> map_option (written \<circ> out)
     (Option.bind (Format 2 (\<lambda>v. True) humanized stringsHeap (VSlice tStrings (Some 1)) True initial)
        (\<lambda>r. Format 2 (\<lambda>v. True) humanized stringsHeap (VSlice tStrings (Some 1)) True
               (r\<lparr>out := []\<rparr>)))
     = Some []
   \<and> map_option (written \<circ> out)
     (Format 2 (\<lambda>v. True) humanized intsHeap (VSlice tInts (Some 1)) True initial)
     = Some (''1'' @ [nl] @ ''2'' @ [nl])
   \<and> map_option (written \<circ> out)
     (Option.bind (Format 2 (\<lambda>v. True) humanized intsHeap (VSlice tInts (Some 1)) True initial)
        (\<lambda>r. Format 2 (\<lambda>v. True) humanized intsHeap (VSlice tInts (Some 1)) True (r\<lparr>out := []\<rparr>)))
     = Some ''12''"
  by code_simp

subsection \<open>Humanize mode\<close>





















end
